theory Spec2Isabelle
  imports Main "HOL-Library.Sublist" "HOL-Library.Multiset" "HOL-Library.Product_Lexorder"
begin

section \<open>Data model\<close>

subsection \<open>Numbers\<close>

text \<open>
  A JavaScript number is a double. The program builds widths and heights from decimal
  digit strings and literals and only subtracts, adds and takes absolute values, so
  its numbers are integers, infinities or NaN: \<open>Fin n\<close> is the double of the integer
  value \<open>n\<close>. An operation returns the double nearest to the exact result, the even one
  of two equally near, and an infinity from \<open>2^1024\<close> on: \<open>round_double\<close>.
\<close>

datatype number = Fin int | PosInf | NegInf | NaN

text \<open>The number of binary digits of a positive integer.\<close>

function bit_length :: "int \<Rightarrow> nat" where
  "bit_length n = (if n \<le> 0 then 0 else Suc (bit_length (n div 2)))"
  by pat_completeness auto
termination
  by (relation "measure nat") auto

declare bit_length.simps [simp del]

definition round_double :: "int \<Rightarrow> number" where
  "round_double n =
     (let a = \<bar>n\<bar>;
          e = bit_length a - 53;
          q = a div 2 ^ e;
          r = a mod 2 ^ e;
          m = (if 2 ^ e < 2 * r \<or> (2 * r = 2 ^ e \<and> odd q) then q + 1 else q) * 2 ^ e
      in if 1024 < bit_length m then (if n < 0 then NegInf else PosInf)
         else Fin (if n < 0 then - m else m))"




subsection \<open>Candidates\<close>

text \<open>
  The candidate record of \<^verbatim>\<open>main.ts\<close>. The priority is one of the literals 1 to 4 and
  is kept as an integer.
\<close>

datatype iconType = AppleTouchIcon | Favicon | OgImage | Manifest

record IconCandidate =
  url :: string
  width :: number
  height :: number
  type :: iconType
  priority :: int

text \<open>The optional \<^verbatim>\<open>type\<close> field of a manifest icon is never read; it is \<open>mimeType\<close> here.\<close>

record ManifestIcon =
  src :: string
  sizes :: "string option"
  mimeType :: "string option"

record WebManifest =
  icons :: "ManifestIcon list option"

section \<open>Regular expressions\<close>

text \<open>
  The patterns of the program are sequences of literals and of character classes, single
  or under a greedy \<^verbatim>\<open>*\<close> or \<^verbatim>\<open>+\<close>. A match is the list of the pieces its atoms
  consumed, so a capture group is the piece of its atom. The matcher backtracks in the
  order of the JavaScript one: a greedy repetition tries its longest run first. A
  \<open>char\<close> stands for a code unit of the string; the patterns tell apart only ASCII
  characters.
\<close>

abbreviation dq :: char where "dq \<equiv> CHR 0x22"
abbreviation sq :: char where "sq \<equiv> CHR 0x27"
abbreviation quotes :: "char list" where "quotes \<equiv> [dq, sq]"

datatype cls = OneOf "char list" | NoneOf "char list" | Digit

fun in_cls :: "cls \<Rightarrow> char \<Rightarrow> bool" where
  "in_cls (OneOf cs) c = (c \<in> set cs)"
| "in_cls (NoneOf cs) c = (c \<notin> set cs)"
| "in_cls Digit c = (c \<in> set ''0123456789'')"

datatype atom = Lit string | One cls | Star cls | Plus cls

record regex =
  ignoreCase :: bool
  atoms :: "atom list"

text \<open>
  Under the \<^verbatim>\<open>i\<close> flag two characters match when their canonical forms are equal. All
  pattern characters of the program are ASCII, and no character outside ASCII is
  canonicalised to an ASCII one, so folding the letters a..z is all that matters.
\<close>

definition upper :: "char \<Rightarrow> char" where
  "upper c =
     (let n = of_char c :: nat
      in if 97 \<le> n \<and> n \<le> 122 then char_of (n - 32) else c)"

definition canon :: "bool \<Rightarrow> char \<Rightarrow> char" where
  "canon ic c = (if ic then upper c else c)"

primrec countdown :: "nat \<Rightarrow> nat list" where
  "countdown 0 = [0]"
| "countdown (Suc n) = Suc n # countdown n"

text \<open>Whether the literal \<open>l\<close> stands at the head of \<open>s\<close>.\<close>

fun lit_match :: "bool \<Rightarrow> string \<Rightarrow> string \<Rightarrow> bool" where
  "lit_match ic [] s = True"
| "lit_match ic (l # ls) [] = False"
| "lit_match ic (l # ls) (c # cs) = (if canon ic c = canon ic l then lit_match ic ls cs else False)"

text \<open>The lengths an atom may consume at the head of \<open>s\<close>, in the order they are tried.\<close>

fun lengths :: "bool \<Rightarrow> atom \<Rightarrow> string \<Rightarrow> nat list" where
  "lengths ic (Lit l) s = (if lit_match ic l s then [length l] else [])"
| "lengths ic (One k) s = (case s of [] \<Rightarrow> [] | c # _ \<Rightarrow> if in_cls k c then [1] else [])"
| "lengths ic (Star k) s = countdown (length (takeWhile (in_cls k) s))"
| "lengths ic (Plus k) s = butlast (countdown (length (takeWhile (in_cls k) s)))"

primrec first_some :: "('a \<Rightarrow> 'b option) \<Rightarrow> 'a list \<Rightarrow> 'b option" where
  "first_some f [] = None"
| "first_some f (x # xs) = (case f x of Some y \<Rightarrow> Some y | None \<Rightarrow> first_some f xs)"

primrec match_here :: "bool \<Rightarrow> atom list \<Rightarrow> string \<Rightarrow> string list option" where
  "match_here ic [] s = Some []"
| "match_here ic (a # as) s =
     first_some
       (\<lambda>n. case match_here ic as (drop n s) of
              None \<Rightarrow> None
            | Some ps \<Rightarrow> Some (take n s # ps))
       (lengths ic a s)"

text \<open>The leftmost position of \<open>s\<close> at which the pattern matches, with the pieces.\<close>

fun search :: "bool \<Rightarrow> atom list \<Rightarrow> nat \<Rightarrow> string \<Rightarrow> (nat \<times> string list) option" where
  "search ic as i [] = map_option (Pair i) (match_here ic as [])"
| "search ic as i (c # cs) =
     (case match_here ic as (c # cs) of
        Some ps \<Rightarrow> Some (i, ps)
      | None \<Rightarrow> search ic as (Suc i) cs)"

definition regex_exec :: "regex \<Rightarrow> string \<Rightarrow> (nat \<times> string list) option" where
  "regex_exec r s = search (ignoreCase r) (atoms r) 0 s"

text \<open>\<^verbatim>\<open>s.match(r)\<close> without the \<^verbatim>\<open>g\<close> flag: the pieces of the first match, or null.\<close>

definition match_first :: "regex \<Rightarrow> string \<Rightarrow> string list option" where
  "match_first r s = map_option snd (regex_exec r s)"

text \<open>
  \<^verbatim>\<open>s.match(r) || []\<close> with the \<^verbatim>\<open>g\<close> flag: the text of every match, each search
  starting where the previous match ended (one further after an empty match).
\<close>

function match_all :: "regex \<Rightarrow> string \<Rightarrow> string list" where
  "match_all r s =
     (case regex_exec r s of
        None \<Rightarrow> []
      | Some (i, ps) \<Rightarrow>
          (let m = concat ps; e = i + max 1 (length m)
           in m # (if e \<le> length s then match_all r (drop e s) else [])))"
  by pat_completeness auto
termination
  by (relation "measure (\<lambda>(r, s). length s)") auto

declare match_all.simps [simp del]

section \<open>The helpers of the program\<close>

subsection \<open>extractAttribute\<close>

text \<open>
  \<^verbatim>\<open>new RegExp(`${attributeName}=["']([^"']*)["']`, "i")\<close>. The name is spliced into
  the pattern; the program passes \<^verbatim>\<open>href\<close>, \<^verbatim>\<open>sizes\<close> and \<^verbatim>\<open>content\<close>, and the model is
  that of a name without pattern syntax: a literal.
\<close>

definition attributeRegex :: "string \<Rightarrow> regex" where
  "attributeRegex attributeName =
     \<lparr>ignoreCase = True,
      atoms = [Lit (attributeName @ ''=''), One (OneOf quotes), Star (NoneOf quotes),
               One (OneOf quotes)]\<rparr>"

definition extractAttribute :: "string \<Rightarrow> string \<Rightarrow> string option" where
  "extractAttribute html attributeName =
     (case match_first (attributeRegex attributeName) html of
        Some ps \<Rightarrow> Some (ps ! 2)
      | None \<Rightarrow> None)"

subsection \<open>parseSizes\<close>

definition digit_val :: "char \<Rightarrow> int" where
  "digit_val c = int (of_char c) - 48"

text \<open>The integer that a string of decimal digits denotes.\<close>

definition decimal :: "string \<Rightarrow> int" where
  "decimal ds = foldl (\<lambda>n c. 10 * n + digit_val c) 0 ds"

text \<open>
  \<^verbatim>\<open>parseInt\<close> on a string of decimal digits: the double nearest to the integer. (Beyond
  20 significant digits the language lets an implementation drop the later digits
  first; the statements below that name a value stay under \<open>2^53\<close>, where every
  implementation returns the integer itself.)
\<close>

definition parseInt :: "string \<Rightarrow> number" where
  "parseInt ds = round_double (decimal ds)"

definition dimRegex :: regex where
  "dimRegex = \<lparr>ignoreCase = False, atoms = [Plus Digit, Lit ''x'', Plus Digit]\<rparr>"

definition singleRegex :: regex where
  "singleRegex = \<lparr>ignoreCase = False, atoms = [Plus Digit]\<rparr>"

definition parseSizes :: "string option \<Rightarrow> number \<times> number" where
  "parseSizes sz =
     (case sz of
        None \<Rightarrow> (Fin 32, Fin 32)
      | Some s \<Rightarrow>
          if s = [] then (Fin 32, Fin 32)
          else (case match_first dimRegex s of
                  Some ps \<Rightarrow> (parseInt (ps ! 0), parseInt (ps ! 2))
                | None \<Rightarrow>
                    (case match_first singleRegex s of
                       Some ps \<Rightarrow> (let size = parseInt (ps ! 0) in (size, size))
                     | None \<Rightarrow> (Fin 32, Fin 32))))"

subsection \<open>resolveUrl\<close>

text \<open>
  The platform's \<^verbatim>\<open>new URL(href, baseUrl).toString()\<close> is a parameter \<open>newURL\<close>: it
  returns the serialised URL, or throws. The base is the page's parsed URL, kept as its
  serialisation.
\<close>

datatype error = TypeError | SyntaxError | NetworkError

type_synonym URL = string
type_synonym url_parser = "string \<Rightarrow> URL \<Rightarrow> error + string"

definition resolveUrl :: "url_parser \<Rightarrow> string \<Rightarrow> URL \<Rightarrow> string" where
  "resolveUrl newURL href baseUrl =
     (case newURL href baseUrl of
        Inr u \<Rightarrow> u
      | Inl e \<Rightarrow> href)"

subsection \<open>findBestIcon\<close>








section \<open>Extraction\<close>

datatype json_body = MalformedJson | ManifestJson WebManifest

datatype fetch_result = FetchFails | Response bool json_body

type_synonym fetcher = "string \<Rightarrow> fetch_result"

text \<open>The body of the \<^verbatim>\<open>try\<close> block of \<^verbatim>\<open>fetchManifestIcons\<close>: what it returns or throws.\<close>

definition manifestIcon :: "url_parser \<Rightarrow> URL \<Rightarrow> ManifestIcon \<Rightarrow> IconCandidate" where
  "manifestIcon newURL baseUrl icon =
     (let iconUrl = resolveUrl newURL (src icon) baseUrl;
          (w, h) = parseSizes (sizes icon)
      in \<lparr>url = iconUrl, width = w, height = h, type = Manifest, priority = 4\<rparr>)"

definition fetchManifestIcons_try ::
  "url_parser \<Rightarrow> fetcher \<Rightarrow> string \<Rightarrow> URL \<Rightarrow> error + IconCandidate list" where
  "fetchManifestIcons_try newURL fetch manifestUrl baseUrl =
     (case fetch manifestUrl of
        FetchFails \<Rightarrow> Inl NetworkError
      | Response ok body \<Rightarrow>
          if \<not> ok then Inr []
          else (case body of
                  MalformedJson \<Rightarrow> Inl SyntaxError
                | ManifestJson manifest \<Rightarrow>
                    (case icons manifest of
                       None \<Rightarrow> Inr []
                     | Some entries \<Rightarrow> Inr (map (manifestIcon newURL baseUrl) entries))))"

definition fetchManifestIcons ::
  "url_parser \<Rightarrow> fetcher \<Rightarrow> string \<Rightarrow> URL \<Rightarrow> IconCandidate list" where
  "fetchManifestIcons newURL fetch manifestUrl baseUrl =
     (case fetchManifestIcons_try newURL fetch manifestUrl baseUrl of
        Inr found \<Rightarrow> found
      | Inl e \<Rightarrow> [])"

definition appleIconRegex :: regex where
  "appleIconRegex =
     \<lparr>ignoreCase = True,
      atoms = [Lit ''<link'', Star (NoneOf ''>''), Lit ''rel='', One (OneOf quotes),
               Lit ''apple-touch-icon'', Star (NoneOf quotes), One (OneOf quotes),
               Star (NoneOf ''>''), Lit ''>'']\<rparr>"

definition faviconRegex :: regex where
  "faviconRegex =
     \<lparr>ignoreCase = True,
      atoms = [Lit ''<link'', Star (NoneOf ''>''), Lit ''rel='', One (OneOf quotes),
               Lit ''icon'', One (OneOf quotes), Star (NoneOf ''>''), Lit ''>'']\<rparr>"

definition ogImageRegex :: regex where
  "ogImageRegex =
     \<lparr>ignoreCase = True,
      atoms = [Lit ''<meta'', Star (NoneOf ''>''), Lit ''property='', One (OneOf quotes),
               Lit ''og:image'', One (OneOf quotes), Star (NoneOf ''>''), Lit ''>'']\<rparr>"

definition manifestRegex :: regex where
  "manifestRegex =
     \<lparr>ignoreCase = True,
      atoms = [Lit ''<link'', Star (NoneOf ''>''), Lit ''rel='', One (OneOf quotes),
               Lit ''manifest'', One (OneOf quotes), Star (NoneOf ''>''), Lit ''>'']\<rparr>"

text \<open>
  The four loops of \<^verbatim>\<open>extractIcons\<close>, each over the matches of its pattern, pushing onto
  the array \<open>acc\<close>. \<^verbatim>\<open>if (href)\<close> is false for null and for the empty string.
\<close>

primrec appleLoop :: "url_parser \<Rightarrow> URL \<Rightarrow> string list \<Rightarrow> IconCandidate list \<Rightarrow> IconCandidate list" where
  "appleLoop newURL baseUrl [] acc = acc"
| "appleLoop newURL baseUrl (m # ms) acc =
     appleLoop newURL baseUrl ms
       (case extractAttribute m ''href'' of
          None \<Rightarrow> acc
        | Some href \<Rightarrow>
            if href = [] then acc
            else (let iconUrl = resolveUrl newURL href baseUrl;
                      (w, h) = parseSizes (extractAttribute m ''sizes'')
                  in acc @ [\<lparr>url = iconUrl, width = w, height = h,
                             type = AppleTouchIcon, priority = 1\<rparr>]))"

primrec faviconLoop :: "url_parser \<Rightarrow> URL \<Rightarrow> string list \<Rightarrow> IconCandidate list \<Rightarrow> IconCandidate list" where
  "faviconLoop newURL baseUrl [] acc = acc"
| "faviconLoop newURL baseUrl (m # ms) acc =
     faviconLoop newURL baseUrl ms
       (case extractAttribute m ''href'' of
          None \<Rightarrow> acc
        | Some href \<Rightarrow>
            if href = [] then acc
            else (let iconUrl = resolveUrl newURL href baseUrl;
                      (w, h) = parseSizes (extractAttribute m ''sizes'')
                  in acc @ [\<lparr>url = iconUrl, width = w, height = h,
                             type = Favicon, priority = 2\<rparr>]))"

primrec ogLoop :: "url_parser \<Rightarrow> URL \<Rightarrow> string list \<Rightarrow> IconCandidate list \<Rightarrow> IconCandidate list" where
  "ogLoop newURL baseUrl [] acc = acc"
| "ogLoop newURL baseUrl (m # ms) acc =
     ogLoop newURL baseUrl ms
       (case extractAttribute m ''content'' of
          None \<Rightarrow> acc
        | Some content \<Rightarrow>
            if content = [] then acc
            else (let iconUrl = resolveUrl newURL content baseUrl
                  in acc @ [\<lparr>url = iconUrl, width = Fin 1200, height = Fin 630,
                             type = OgImage, priority = 3\<rparr>]))"

primrec manifestLoop ::
  "url_parser \<Rightarrow> fetcher \<Rightarrow> URL \<Rightarrow> string list \<Rightarrow> IconCandidate list \<Rightarrow> IconCandidate list" where
  "manifestLoop newURL fetch baseUrl [] acc = acc"
| "manifestLoop newURL fetch baseUrl (m # ms) acc =
     manifestLoop newURL fetch baseUrl ms
       (case extractAttribute m ''href'' of
          None \<Rightarrow> acc
        | Some href \<Rightarrow>
            if href = [] then acc
            else (let manifestUrl = resolveUrl newURL href baseUrl;
                      manifestIcons = fetchManifestIcons newURL fetch manifestUrl baseUrl
                  in acc @ manifestIcons))"

text \<open>The array after the first three scans, before the manifest check.\<close>

definition directIcons :: "url_parser \<Rightarrow> string \<Rightarrow> URL \<Rightarrow> IconCandidate list" where
  "directIcons newURL html baseUrl =
     (let acc = [];
          acc = appleLoop newURL baseUrl (match_all appleIconRegex html) acc;
          acc = faviconLoop newURL baseUrl (match_all faviconRegex html) acc;
          acc = ogLoop newURL baseUrl (match_all ogImageRegex html) acc
      in acc)"

definition extractIcons :: "url_parser \<Rightarrow> fetcher \<Rightarrow> string \<Rightarrow> URL \<Rightarrow> IconCandidate list" where
  "extractIcons newURL fetch html baseUrl =
     (let acc = directIcons newURL html baseUrl
      in if length (filter (\<lambda>icon. type icon \<noteq> OgImage) acc) = 0
         then manifestLoop newURL fetch baseUrl (match_all manifestRegex html) acc
         else acc)"

section \<open>Specification vocabulary\<close>

text \<open>What it means for a piece of text to be matched by an atom, without the matcher.\<close>

fun atom_ok :: "bool \<Rightarrow> atom \<Rightarrow> string \<Rightarrow> bool" where
  "atom_ok ic (Lit l) p = (map (canon ic) p = map (canon ic) l)"
| "atom_ok ic (One k) p = (length p = 1 \<and> list_all (in_cls k) p)"
| "atom_ok ic (Star k) p = list_all (in_cls k) p"
| "atom_ok ic (Plus k) p = (p \<noteq> [] \<and> list_all (in_cls k) p)"






text \<open>A size is a non-negative integer or positive infinity.\<close>

definition size_ok :: "number \<Rightarrow> bool" where
  "size_ok x = (case x of Fin n \<Rightarrow> 0 \<le> n | PosInf \<Rightarrow> True | _ \<Rightarrow> False)"

text \<open>
  The integer a string of digits denotes, by position: the digit at index \<open>i\<close> counts
  \<open>10 ^ (length ds - 1 - i)\<close> times.
\<close>

definition digits_value :: "string \<Rightarrow> int" where
  "digits_value ds = (\<Sum>i<length ds. digit_val (ds ! i) * 10 ^ (length ds - Suc i))"

text \<open>The priority tier of a source type, as the data model fixes it.\<close>

definition spec_priority :: "iconType \<Rightarrow> int" where
  "spec_priority t =
     (case t of AppleTouchIcon \<Rightarrow> 1 | Favicon \<Rightarrow> 2 | OgImage \<Rightarrow> 3 | Manifest \<Rightarrow> 4)"

text \<open>
  Every absolute URL starts with a scheme, a letter followed by letters, digits,
  \<^verbatim>\<open>+\<close>, \<^verbatim>\<open>-\<close> or \<^verbatim>\<open>.\<close>, and a colon.
\<close>

definition has_scheme :: "string \<Rightarrow> bool" where
  "has_scheme u =
     (case takeWhile (\<lambda>c. c \<noteq> CHR '':'') u of
        [] \<Rightarrow> False
      | c # cs \<Rightarrow>
          length (c # cs) < length u \<and>
          upper c \<in> set ''ABCDEFGHIJKLMNOPQRSTUVWXYZ'' \<and>
          list_all (\<lambda>d. upper d \<in> set ''ABCDEFGHIJKLMNOPQRSTUVWXYZ0123456789+-.'') cs)"

text \<open>
  The reference a candidate was built from: the \<^verbatim>\<open>href\<close> of a tag its scan matched
  (the \<^verbatim>\<open>content\<close> for an Open Graph image), not empty, with the sizes of that tag; or
  the \<^verbatim>\<open>src\<close> of an entry of a manifest that a matched manifest link led to, with the
  sizes of that entry.
\<close>

definition reference_of ::
  "url_parser \<Rightarrow> fetcher \<Rightarrow> string \<Rightarrow> URL \<Rightarrow> IconCandidate \<Rightarrow> string \<Rightarrow> bool" where
  "reference_of newURL fetch html baseUrl c ref \<longleftrightarrow>
     (case type c of
        AppleTouchIcon \<Rightarrow>
          (\<exists>m\<in>set (match_all appleIconRegex html).
             extractAttribute m ''href'' = Some ref \<and> ref \<noteq> [] \<and>
             (width c, height c) = parseSizes (extractAttribute m ''sizes''))
      | Favicon \<Rightarrow>
          (\<exists>m\<in>set (match_all faviconRegex html).
             extractAttribute m ''href'' = Some ref \<and> ref \<noteq> [] \<and>
             (width c, height c) = parseSizes (extractAttribute m ''sizes''))
      | OgImage \<Rightarrow>
          (\<exists>m\<in>set (match_all ogImageRegex html).
             extractAttribute m ''content'' = Some ref \<and> ref \<noteq> [])
      | Manifest \<Rightarrow>
          (\<exists>m\<in>set (match_all manifestRegex html). \<exists>href manifest entries icon.
             extractAttribute m ''href'' = Some href \<and> href \<noteq> [] \<and>
             fetch (resolveUrl newURL href baseUrl) = Response True (ManifestJson manifest) \<and>
             icons manifest = Some entries \<and> icon \<in> set entries \<and> ref = src icon \<and>
             (width c, height c) = parseSizes (sizes icon)))"

text \<open>
  What holds of every candidate: each size is a non-negative integer or infinity, the
  priority is that of the type, an Open Graph image is 1200 by 630, and the url comes
  from the candidate's reference: the parser's serialisation when the reference parses,
  the reference itself when it does not. When the parser serialises to absolute URLs
  only, the url of a reference that parses is absolute.
\<close>

definition well_formed ::
  "url_parser \<Rightarrow> fetcher \<Rightarrow> string \<Rightarrow> URL \<Rightarrow> IconCandidate \<Rightarrow> bool" where
  "well_formed newURL fetch html baseUrl c \<longleftrightarrow>
     size_ok (width c) \<and> size_ok (height c) \<and> priority c = spec_priority (type c) \<and>
     (type c = OgImage \<longrightarrow> width c = Fin 1200 \<and> height c = Fin 630) \<and>
     (\<exists>ref. reference_of newURL fetch html baseUrl c ref \<and>
        (case newURL ref baseUrl of
           Inr u \<Rightarrow> url c = u \<and> ((\<forall>h b v. newURL h b = Inr v \<longrightarrow> has_scheme v) \<longrightarrow> has_scheme u)
         | Inl e \<Rightarrow> url c = ref))"


text \<open>A fetch that yields no manifest: it fails, answers with a non-success status, or
  its body is not JSON.\<close>

definition failing :: "fetch_result \<Rightarrow> bool" where
  "failing r \<longleftrightarrow>
     (case r of FetchFails \<Rightarrow> True | Response ok body \<Rightarrow> \<not> ok \<or> body = MalformedJson)"

text \<open>
  An attribute stands at the head of \<open>t\<close> with value \<open>v\<close>: the name in any case, \<^verbatim>\<open>=\<close>,
  a quote of either kind, the value free of quotes, and a quote of either kind.
\<close>

definition attr_at :: "string \<Rightarrow> string \<Rightarrow> string \<Rightarrow> bool" where
  "attr_at attributeName v t \<longleftrightarrow>
     (\<exists>n q1 q2 rest. t = n @ ''='' @ [q1] @ v @ [q2] @ rest \<and>
        map upper n = map upper attributeName \<and>
        q1 \<in> set quotes \<and> q2 \<in> set quotes \<and> list_all (\<lambda>c. c \<notin> set quotes) v)"

text \<open>
  The attribute extractor as the specification words it: the value is enclosed in
  matching quotes, both double or both single, after \<^verbatim>\<open>name=\<close>; the first such place
  counts.
\<close>

definition sameQuoteRegex :: "char \<Rightarrow> string \<Rightarrow> regex" where
  "sameQuoteRegex q attributeName =
     \<lparr>ignoreCase = True,
      atoms = [Lit (attributeName @ ''=''), One (OneOf [q]), Star (NoneOf [q]), One (OneOf [q])]\<rparr>"

definition spec_extractAttribute :: "string \<Rightarrow> string \<Rightarrow> string option" where
  "spec_extractAttribute html attributeName =
     (case (regex_exec (sameQuoteRegex dq attributeName) html,
            regex_exec (sameQuoteRegex sq attributeName) html) of
        (None, None) \<Rightarrow> None
      | (Some (i, ps), None) \<Rightarrow> Some (ps ! 2)
      | (None, Some (j, qs)) \<Rightarrow> Some (qs ! 2)
      | (Some (i, ps), Some (j, qs)) \<Rightarrow> if i \<le> j then Some (ps ! 2) else Some (qs ! 2))"

text \<open>
  A size pattern stands at the head of \<open>t\<close>: the digits \<open>d1\<close>, a lower-case \<^verbatim>\<open>x\<close> and the
  digits \<open>d2\<close>.
\<close>

definition dims_at :: "string \<Rightarrow> string \<Rightarrow> string \<Rightarrow> bool" where
  "dims_at d1 d2 t \<longleftrightarrow>
     (\<exists>rest. t = d1 @ ''x'' @ d2 @ rest \<and> d1 \<noteq> [] \<and> d2 \<noteq> [] \<and>
        list_all (in_cls Digit) d1 \<and> list_all (in_cls Digit) d2)"

text \<open>
  The text a match of the apple-touch-icon pattern has: \<^verbatim>\<open><link\<close>, text free of
  \<^verbatim>\<open>>\<close>, \<^verbatim>\<open>rel=\<close>, a quote, \<^verbatim>\<open>apple-touch-icon\<close>, text free of quotes, a quote, text
  free of \<^verbatim>\<open>>\<close>, and \<^verbatim>\<open>>\<close>; letters in any case.
\<close>

definition apple_match :: "string \<Rightarrow> bool" where
  "apple_match m \<longleftrightarrow>
     (\<exists>l a r q1 k v q2 b. m = l @ a @ r @ [q1] @ k @ v @ [q2] @ b @ ''>'' \<and>
        map upper l = map upper ''<link'' \<and> CHR ''>'' \<notin> set a \<and>
        map upper r = map upper ''rel='' \<and> q1 \<in> set quotes \<and>
        map upper k = map upper ''apple-touch-icon'' \<and>
        list_all (\<lambda>c. c \<notin> set quotes) v \<and> q2 \<in> set quotes \<and> CHR ''>'' \<notin> set b)"

text \<open>
  Wherever \<^verbatim>\<open>rel=\<close>, a quote and \<^verbatim>\<open>apple-touch-icon\<close> stand in the text, a quote follows
  later in the text: a value so opened is closed.
\<close>

definition closes_values :: "string \<Rightarrow> bool" where
  "closes_values s \<longleftrightarrow>
     (\<forall>y r q k t. s = y @ r @ [q] @ k @ t \<and> map upper r = map upper ''rel='' \<and>
        q \<in> set quotes \<and> map upper k = map upper ''apple-touch-icon'' \<longrightarrow>
        (\<exists>c\<in>set t. c \<in> set quotes))"

text \<open>
  A tag is a text of that form whose only \<^verbatim>\<open>>\<close> is its last character and which closes
  its values before it.
\<close>

definition apple_tag :: "string \<Rightarrow> bool" where
  "apple_tag tag \<longleftrightarrow>
     apple_match tag \<and> CHR ''>'' \<notin> set (butlast tag) \<and> closes_values (butlast tag)"

text \<open>The candidate the apple-touch-icon loop pushes for a matched tag, if any.\<close>

definition appleCandidate :: "url_parser \<Rightarrow> URL \<Rightarrow> string \<Rightarrow> IconCandidate list" where
  "appleCandidate newURL baseUrl tag =
     (case extractAttribute tag ''href'' of
        None \<Rightarrow> []
      | Some href \<Rightarrow>
          if href = [] then []
          else [\<lparr>url = resolveUrl newURL href baseUrl,
                 width = fst (parseSizes (extractAttribute tag ''sizes'')),
                 height = snd (parseSizes (extractAttribute tag ''sizes'')),
                 type = AppleTouchIcon, priority = 1\<rparr>])"

text \<open>
  The source splices the attribute name into a pattern. A name is literal when it has
  none of the characters of the pattern syntax; the names the program passes are.
\<close>

definition pattern_syntax :: "char list" where
  "pattern_syntax = ''^$.*+?()[]{}|'' @ [CHR 0x5C]"

definition literal_name :: "string \<Rightarrow> bool" where
  "literal_name n \<longleftrightarrow> list_all (\<lambda>c. c \<notin> set pattern_syntax) n"

section \<open>Examples\<close>






text \<open>A size descriptor whose width has 310 digits.\<close>

definition huge_sizes :: string where
  "huge_sizes = ''1'' @ replicate 309 CHR ''0'' @ ''x1''"

text \<open>
  A page at \<^verbatim>\<open>https://example.com/dir/page.html\<close>. \<open>ex_newURL\<close> stands in for the
  platform's URL parser on the references of the examples: it has the platform's answer
  for each of them (an origin without a path is serialised with the path \<^verbatim>\<open>/\<close>;
  \<^verbatim>\<open>//[\<close> opens an IPv6 literal that is never closed, which is rejected) and rejects
  every other reference; none is used.
\<close>

definition ex_base :: URL where
  "ex_base = ''https://example.com/dir/page.html''"

definition ex_newURL :: url_parser where
  "ex_newURL href baseUrl =
     (case map_of
        [(''https://example.com'', ''https://example.com/''),
         (''https://example.com/a.png'', ''https://example.com/a.png''),
         (''/a.png'', ''https://example.com/a.png''),
         (''/apple-touch-icon.png'', ''https://example.com/apple-touch-icon.png''),
         (''/i.png'', ''https://example.com/i.png''),
         (''/m.json'', ''https://example.com/m.json''),
         (''o.png'', ''https://example.com/dir/o.png'')] href of
        Some u \<Rightarrow> Inr u
      | None \<Rightarrow> Inl TypeError)"

definition ex_manifest :: WebManifest where
  "ex_manifest =
     \<lparr>icons = Some [\<lparr>src = ''/i.png'', sizes = Some ''512x512'', mimeType = None\<rparr>]\<rparr>"

definition ex_fetch :: fetcher where
  "ex_fetch u =
     (if u = ''https://example.com/m.json'' then Response True (ManifestJson ex_manifest)
      else if u = ''https://example.com/bad.json'' then Response True MalformedJson
      else if u = ''https://example.com/404.json'' then Response False MalformedJson
      else FetchFails)"

text \<open>A manifest whose icon has the huge size descriptor, and a fetch that answers with it.\<close>

definition huge_manifest :: WebManifest where
  "huge_manifest =
     \<lparr>icons = Some [\<lparr>src = ''/i.png'', sizes = Some huge_sizes, mimeType = None\<rparr>]\<rparr>"

definition huge_fetch :: fetcher where
  "huge_fetch u = Response True (ManifestJson huge_manifest)"

text \<open>
  Pages: an Open Graph image and a manifest link; a favicon and a manifest link; a
  favicon whose reference does not parse.
\<close>

definition manifest_link :: string where
  "manifest_link =
     ''<link rel='' @ [dq] @ ''manifest'' @ [dq] @ '' href='' @ [dq] @ ''/m.json'' @ [dq] @ ''>''"

definition og_page :: string where
  "og_page =
     ''<meta property='' @ [dq] @ ''og:image'' @ [dq] @ '' content='' @ [dq] @ ''o.png'' @ [dq] @
     ''><link rel='' @ [dq] @ ''manifest'' @ [dq] @ '' href='' @ [dq] @ ''/m.json'' @ [dq] @ ''>''"

definition favicon_page :: string where
  "favicon_page =
     ''<link rel='' @ [dq] @ ''icon'' @ [dq] @ '' href='' @ [dq] @ ''/a.png'' @ [dq] @
     ''><link rel='' @ [dq] @ ''manifest'' @ [dq] @ '' href='' @ [dq] @ ''/m.json'' @ [dq] @ ''>''"

definition bad_href_page :: string where
  "bad_href_page =
     ''<link rel='' @ [dq] @ ''icon'' @ [dq] @ '' href='' @ [dq] @ ''//['' @ [dq] @ ''>''"

text \<open>
  Fragments of markup: an attribute opened by a single and closed by a double quote
  before one in double quotes; a value in double quotes that holds a single quote; a
  value opened by a double quote and closed by a single one.
\<close>

definition mixed_quotes :: string where
  "mixed_quotes = ''<a HREF='' @ [sq] @ ''x'' @ [dq] @ '' href='' @ [dq] @ ''y'' @ [dq] @ ''>''"

definition inner_quote :: string where
  "inner_quote = ''href='' @ [dq] @ ''it'' @ [sq] @ ''s'' @ [dq]"

definition unclosed_quote :: string where
  "unclosed_quote = ''href='' @ [dq] @ ''a'' @ [sq]"

text \<open>
  Link tags: one of another kind; one in upper case whose \<^verbatim>\<open>rel\<close> value starts with the
  keyword and whose \<^verbatim>\<open>href\<close> holds it again; the everyday one, with sizes; one whose
  \<^verbatim>\<open>rel\<close> value holds the keyword after another token; one whose \<^verbatim>\<open>data-rel\<close> value is
  the keyword; one with a \<^verbatim>\<open>>\<close> in a value before its \<^verbatim>\<open>href\<close>.
\<close>

definition other_link :: string where
  "other_link = ''<link rel='' @ [dq] @ ''x'' @ [dq] @ ''>''"

definition apple_link :: string where
  "apple_link =
     ''<LINK REL='' @ [sq] @ ''apple-touch-icon-x'' @ [dq] @ '' href='' @ [dq] @
     ''/apple-touch-icon.png'' @ [dq] @ ''>''"

definition plain_link :: string where
  "plain_link =
     ''<link rel='' @ [dq] @ ''apple-touch-icon'' @ [dq] @ '' sizes='' @ [dq] @ ''180x180'' @ [dq] @
     '' href='' @ [dq] @ ''/apple-touch-icon.png'' @ [dq] @ ''>''"

definition mask_page :: string where
  "mask_page =
     ''<link rel='' @ [dq] @ ''mask-icon apple-touch-icon'' @ [dq] @ '' href='' @ [dq] @ ''/a.png'' @
     [dq] @ ''>''"

definition data_rel_page :: string where
  "data_rel_page =
     ''<link data-rel='' @ [dq] @ ''apple-touch-icon'' @ [dq] @ '' href='' @ [dq] @ ''/a.png'' @
     [dq] @ ''>''"

definition gt_page :: string where
  "gt_page =
     ''<link rel='' @ [dq] @ ''apple-touch-icon'' @ [dq] @ '' title='' @ [dq] @ ''>'' @ [dq] @
     '' href='' @ [dq] @ ''/a.png'' @ [dq] @ ''>''"

section \<open>The matcher is sound, complete and greedy\<close>

text \<open>Case folding on the bits of a character, for evaluation.\<close>

lemma upper_code [code]:
  "upper (Char b0 b1 b2 b3 b4 b5 b6 b7) =
     (if b5 \<and> b6 \<and> \<not> b7 \<and> (b0 \<or> b1 \<or> b2 \<or> b3 \<or> b4) \<and> \<not> (b3 \<and> b4 \<and> (b2 \<or> b0 \<and> b1))
      then Char b0 b1 b2 b3 b4 False b6 b7
      else Char b0 b1 b2 b3 b4 b5 b6 b7)"
  by (cases b0; cases b1; cases b2; cases b3; cases b4; cases b5; cases b6; cases b7;
      simp add: upper_def Let_def char_of_def bit_0)

lemma set_countdown: "set (countdown n) = {0..n}"
  by (induction n) (auto simp: atLeastAtMostSuc_conv)

lemma countdown_desc: "sorted_wrt (>) (countdown n)"
  by (induction n) (auto simp: set_countdown)

lemma countdown_last: "countdown n = butlast (countdown n) @ [0]"
  by (induction n) auto

lemma set_butlast_countdown: "set (butlast (countdown n)) = {1..n}"
proof (induction n)
  case 0 show ?case by simp
next
  case (Suc n)
  have "countdown n \<noteq> []" by (cases n) auto
  then show ?case using Suc by (auto simp: atLeastAtMostSuc_conv)
qed

lemma butlast_countdown_desc: "sorted_wrt (>) (butlast (countdown n))"
proof -
  have "sorted_wrt (>) (butlast (countdown n) @ [0])"
    using countdown_desc[of n] countdown_last[of n] by simp
  then show ?thesis by (simp add: sorted_wrt_append)
qed

lemma lengths_desc: "sorted_wrt (>) (lengths ic a s)"
  by (cases a) (auto simp: countdown_desc butlast_countdown_desc split: list.splits)

lemma take_takeWhile_all:
  "n \<le> length (takeWhile P s) \<Longrightarrow> list_all P (take n s)"
proof -
  assume n: "n \<le> length (takeWhile P s)"
  have "take n s = take n (takeWhile P s @ dropWhile P s)" by simp
  also have "\<dots> = take n (takeWhile P s)" using n by (simp only: take_append) simp
  finally have "set (take n s) \<subseteq> set (takeWhile P s)" by (simp add: set_take_subset)
  then show ?thesis by (auto simp: list_all_iff dest: set_takeWhileD)
qed

lemma lit_match_iff:
  "lit_match ic l s \<longleftrightarrow>
     length l \<le> length s \<and> map (canon ic) (take (length l) s) = map (canon ic) l"
  by (induction ic l s rule: lit_match.induct) auto

lemma lengths_sound:
  assumes "n \<in> set (lengths ic a s)"
  shows "n \<le> length s \<and> atom_ok ic a (take n s)"
proof (cases a)
  case (Lit l)
  with assms show ?thesis by (auto simp: lit_match_iff split: if_splits)
next
  case (One k)
  with assms show ?thesis by (cases s) (auto split: if_splits)
next
  case (Star k)
  with assms have "n \<le> length (takeWhile (in_cls k) s)" by (simp add: set_countdown)
  then show ?thesis using Star take_takeWhile_all[of n "in_cls k" s] length_takeWhile_le[of "in_cls k" s]
    by auto
next
  case (Plus k)
  with assms have n: "1 \<le> n" "n \<le> length (takeWhile (in_cls k) s)"
    by (simp_all add: set_butlast_countdown)
  then have "n \<le> length s" using length_takeWhile_le[of "in_cls k" s] by linarith
  then have "take n s \<noteq> []" using n(1) by auto
  then show ?thesis using Plus n take_takeWhile_all[of n "in_cls k" s] \<open>n \<le> length s\<close>
    by auto
qed

lemma prefix_all_takeWhile:
  assumes "prefix p s" "list_all P p"
  shows "length p \<le> length (takeWhile P s)"
proof -
  from assms(1) obtain r where s: "s = p @ r" by (auto simp: prefix_def)
  have "takeWhile P (p @ r) = p @ takeWhile P r"
    using assms(2) by (simp add: takeWhile_append2 list_all_iff)
  then show ?thesis using s by simp
qed

lemma lengths_complete:
  assumes "atom_ok ic a p" "prefix p s"
  shows "length p \<in> set (lengths ic a s)"
proof -
  from assms(2) obtain r where s: "s = p @ r" by (auto simp: prefix_def)
  show ?thesis
  proof (cases a)
    case (Lit l)
    with assms(1) have m: "map (canon ic) p = map (canon ic) l" by simp
    then have "length p = length l" by (metis length_map)
    then show ?thesis using Lit m s by (simp add: lit_match_iff)
  next
    case (One k)
    with assms(1) obtain c where "p = [c]" "in_cls k c"
      by (cases p) auto
    then show ?thesis using One s by simp
  next
    case (Star k)
    then show ?thesis using assms prefix_all_takeWhile[of p s "in_cls k"]
      by (simp add: set_countdown)
  next
    case (Plus k)
    then have "p \<noteq> []" using assms(1) by simp
    then have "1 \<le> length p" by (cases p) auto
    then show ?thesis using Plus assms prefix_all_takeWhile[of p s "in_cls k"]
      by (simp add: set_butlast_countdown)
  qed
qed

lemma first_some_None: "first_some f xs = None \<longleftrightarrow> (\<forall>x\<in>set xs. f x = None)"
  by (induction xs) (auto split: option.splits)

lemma first_some_desc:
  "first_some f xs = Some y \<Longrightarrow> sorted_wrt (>) (xs :: nat list) \<Longrightarrow>
     \<exists>x\<in>set xs. f x = Some y \<and> (\<forall>z\<in>set xs. x < z \<longrightarrow> f z = None)"
proof (induction xs)
  case Nil then show ?case by simp
next
  case (Cons x xs)
  show ?case
  proof (cases "f x")
    case (Some v)
    then have "v = y" using Cons.prems(1) by simp
    then show ?thesis using Some Cons.prems(2) by auto
  next
    case None
    then have "first_some f xs = Some y" using Cons.prems(1) by simp
    then obtain x' where "x' \<in> set xs" "f x' = Some y" "\<forall>z\<in>set xs. x' < z \<longrightarrow> f z = None"
      using Cons.IH Cons.prems(2) by auto
    then show ?thesis using None by auto
  qed
qed

text \<open>The first piece of a match and the match of the rest.\<close>

lemma match_here_Cons:
  assumes "match_here ic (a # as) s = Some qs"
  shows "\<exists>n ps. qs = take n s # ps \<and> n \<in> set (lengths ic a s) \<and>
           match_here ic as (drop n s) = Some ps \<and>
           (\<forall>k\<in>set (lengths ic a s). n < k \<longrightarrow> match_here ic as (drop k s) = None)"
proof -
  let ?f = "\<lambda>n. case match_here ic as (drop n s) of
                   None \<Rightarrow> None
                 | Some ps \<Rightarrow> Some (take n s # ps)"
  from assms have "first_some ?f (lengths ic a s) = Some qs" by simp
  from first_some_desc[OF this lengths_desc]
  obtain n where n: "n \<in> set (lengths ic a s)" "?f n = Some qs"
    "\<forall>z\<in>set (lengths ic a s). n < z \<longrightarrow> ?f z = None" by blast
  from n(2) obtain ps where "match_here ic as (drop n s) = Some ps" "qs = take n s # ps"
    by (auto split: option.splits)
  then show ?thesis using n(1,3) by (auto split: option.splits)
qed

lemma match_here_sound:
  "match_here ic as s = Some ps \<Longrightarrow> list_all2 (atom_ok ic) as ps \<and> prefix (concat ps) s"
proof (induction as arbitrary: s ps)
  case Nil then show ?case by simp
next
  case (Cons a as)
  from match_here_Cons[OF Cons.prems] obtain n qs where
    q: "ps = take n s # qs" "n \<in> set (lengths ic a s)" "match_here ic as (drop n s) = Some qs"
    by blast
  from Cons.IH[OF q(3)] have ih: "list_all2 (atom_ok ic) as qs" "prefix (concat qs) (drop n s)" by auto
  from lengths_sound[OF q(2)] have a: "n \<le> length s" "atom_ok ic a (take n s)" by auto
  from ih(2) obtain r where "drop n s = concat qs @ r" by (auto simp: prefix_def)
  then have "s = take n s @ concat qs @ r" by (metis append_take_drop_id)
  then have "prefix (take n s @ concat qs) s" by (metis append.assoc prefixI)
  then show ?case using q(1) ih(1) a(2) by simp
qed

lemma match_here_complete:
  "list_all2 (atom_ok ic) as ps \<Longrightarrow> prefix (concat ps) s \<Longrightarrow> match_here ic as s \<noteq> None"
proof (induction as arbitrary: s ps)
  case Nil then show ?case by simp
next
  case (Cons a as)
  from Cons.prems(1) obtain p qs where ps: "ps = p # qs" "atom_ok ic a p" "list_all2 (atom_ok ic) as qs"
    by (cases ps) auto
  from Cons.prems(2) ps(1) obtain r where s: "s = p @ concat qs @ r" by (auto simp: prefix_def)
  then have pp: "prefix p s" by simp
  have d: "drop (length p) s = concat qs @ r" using s by simp
  then have "prefix (concat qs) (drop (length p) s)" by simp
  from Cons.IH[OF ps(3) this] obtain qs' where
    m: "match_here ic as (drop (length p) s) = Some qs'" by auto
  have len: "length p \<in> set (lengths ic a s)" using ps(2) pp by (rule lengths_complete)
  show ?case
  proof
    assume "match_here ic (a # as) s = None"
    then have "\<forall>n\<in>set (lengths ic a s).
        (case match_here ic as (drop n s) of None \<Rightarrow> None
         | Some ps \<Rightarrow> Some (take n s # ps)) = None"
      by (simp add: first_some_None)
    with len have "(case match_here ic as (drop (length p) s) of None \<Rightarrow> None
         | Some ps \<Rightarrow> Some (take (length p) s # ps)) = None" by blast
    with m show False by simp
  qed
qed

lemma match_here_greedy:
  assumes "match_here ic (a # as) s = Some (p # ps)"
    and "atom_ok ic a p'" "list_all2 (atom_ok ic) as ps'" "prefix (p' @ concat ps') s"
  shows "length p' \<le> length p"
proof (rule ccontr)
  assume "\<not> length p' \<le> length p"
  then have lt: "length p < length p'" by simp
  from match_here_Cons[OF assms(1)] obtain n where
    n: "p = take n s" "n \<in> set (lengths ic a s)"
    "\<forall>k\<in>set (lengths ic a s). n < k \<longrightarrow> match_here ic as (drop k s) = None" by auto
  from lengths_sound[OF n(2)] have "n \<le> length s" by simp
  then have np: "length p = n" using n(1) by simp
  from assms(4) obtain r where s: "s = p' @ concat ps' @ r" by (auto simp: prefix_def)
  then have "prefix p' s" by simp
  with assms(2) have "length p' \<in> set (lengths ic a s)" by (rule lengths_complete)
  with n(3) lt np have "match_here ic as (drop (length p') s) = None" by auto
  moreover have "prefix (concat ps') (drop (length p') s)" using s by simp
  ultimately show False using match_here_complete[OF assms(3)] by blast
qed

lemma search_Some:
  "search ic as i s = Some (j, ps) \<Longrightarrow>
     i \<le> j \<and> j - i \<le> length s \<and> match_here ic as (drop (j - i) s) = Some ps \<and>
     (\<forall>k<j - i. match_here ic as (drop k s) = None)"
proof (induction s arbitrary: i)
  case Nil then show ?case by auto
next
  case (Cons c cs)
  show ?case
  proof (cases "match_here ic as (c # cs)")
    case (Some qs)
    with Cons.prems show ?thesis by auto
  next
    case None
    with Cons.prems have "search ic as (Suc i) cs = Some (j, ps)" by simp
    from Cons.IH[OF this] have ih: "Suc i \<le> j" "j - Suc i \<le> length cs"
      "match_here ic as (drop (j - Suc i) cs) = Some ps"
      "\<forall>k<j - Suc i. match_here ic as (drop k cs) = None" by auto
    have e: "j - i = Suc (j - Suc i)" using ih(1) by simp
    have "\<forall>k<j - i. match_here ic as (drop k (c # cs)) = None"
    proof (intro allI impI)
      fix k assume "k < j - i"
      then show "match_here ic as (drop k (c # cs)) = None"
        using None ih(4) e by (cases k) auto
    qed
    then show ?thesis using ih e by auto
  qed
qed

lemma search_None:
  "search ic as i s = None \<longleftrightarrow> (\<forall>k\<le>length s. match_here ic as (drop k s) = None)"
proof (induction s arbitrary: i)
  case Nil then show ?case by auto
next
  case (Cons c cs)
  show ?case
  proof (cases "match_here ic as (c # cs)")
    case (Some qs)
    then show ?thesis by (auto intro: exI[of _ 0])
  next
    case None
    have "(\<forall>k\<le>length (c # cs). match_here ic as (drop k (c # cs)) = None) \<longleftrightarrow>
          (\<forall>k\<le>length cs. match_here ic as (drop k cs) = None)"
    proof
      assume a: "\<forall>k\<le>length (c # cs). match_here ic as (drop k (c # cs)) = None"
      show "\<forall>k\<le>length cs. match_here ic as (drop k cs) = None"
      proof (intro allI impI)
        fix k assume "k \<le> length cs"
        then show "match_here ic as (drop k cs) = None" using a[rule_format, of "Suc k"] by simp
      qed
    next
      assume a: "\<forall>k\<le>length cs. match_here ic as (drop k cs) = None"
      show "\<forall>k\<le>length (c # cs). match_here ic as (drop k (c # cs)) = None"
      proof (intro allI impI)
        fix k assume "k \<le> length (c # cs)"
        then show "match_here ic as (drop k (c # cs)) = None" using a None by (cases k) auto
      qed
    qed
    then show ?thesis using None Cons.IH[of "Suc i"] by simp
  qed
qed

section \<open>Numbers\<close>

lemma bit_length_le: "n < 2 ^ k \<Longrightarrow> bit_length n \<le> k"
proof (induction k arbitrary: n)
  case 0
  then show ?case by (simp add: bit_length.simps)
next
  case (Suc k)
  show ?case
  proof (cases "n \<le> 0")
    case True then show ?thesis by (simp add: bit_length.simps)
  next
    case False
    have "n div 2 < 2 ^ k" using Suc.prems by simp
    from Suc.IH[OF this] show ?thesis using False by (subst bit_length.simps) simp
  qed
qed

lemma bit_length_ge: "0 < n \<Longrightarrow> 2 ^ (bit_length n - 1) \<le> n"
proof (induction n rule: bit_length.induct)
  case (1 n)
  have n: "\<not> n \<le> 0" using "1.prems" by simp
  have bl: "bit_length n = Suc (bit_length (n div 2))" using n by (subst bit_length.simps) simp
  show ?case
  proof (cases "n div 2 \<le> 0")
    case True
    then have "bit_length (n div 2) = 0" by (simp add: bit_length.simps)
    then show ?thesis using bl "1.prems" by simp
  next
    case False
    then have "0 < n div 2" by simp
    from "1.IH"[OF n this] have ih: "2 ^ (bit_length (n div 2) - 1) \<le> n div 2" .
    have pos: "bit_length (n div 2) \<noteq> 0" using False by (subst bit_length.simps) simp
    then have "bit_length n - 1 = Suc (bit_length (n div 2) - 1)" using bl by simp
    then have "(2::int) ^ (bit_length n - 1) = 2 * 2 ^ (bit_length (n div 2) - 1)" by simp
    also have "\<dots> \<le> 2 * (n div 2)" using ih by simp
    also have "\<dots> \<le> n" by simp
    finally show ?thesis .
  qed
qed

lemma bit_length_lt: "n < 2 ^ bit_length n"
proof (induction n rule: bit_length.induct)
  case (1 n)
  show ?case
  proof (cases "n \<le> 0")
    case True
    then show ?thesis by (simp add: bit_length.simps)
  next
    case False
    then have bl: "bit_length n = Suc (bit_length (n div 2))" by (subst bit_length.simps) simp
    from "1.IH"[OF False] have "n div 2 < 2 ^ bit_length (n div 2)" .
    then have "n < 2 * 2 ^ bit_length (n div 2)" by linarith
    then show ?thesis using bl by simp
  qed
qed

text \<open>Integers of at most 53 bits are doubles.\<close>

lemma round_double_exact: "\<bar>n\<bar> < 2 ^ 53 \<Longrightarrow> round_double n = Fin n"
proof -
  assume a: "\<bar>n\<bar> < 2 ^ 53"
  then have e: "bit_length \<bar>n\<bar> - 53 = 0" using bit_length_le[of "\<bar>n\<bar>" 53] by simp
  have "bit_length \<bar>n\<bar> \<le> 53" using a by (rule bit_length_le)
  then show ?thesis unfolding round_double_def Let_def e by auto
qed


text \<open>The double of a non-negative integer is a non-negative integer or infinity.\<close>

lemma round_double_nonneg: "0 \<le> n \<Longrightarrow> size_ok (round_double n)"
proof -
  assume n: "0 \<le> n"
  define e where "e = bit_length \<bar>n\<bar> - 53"
  define q where "q = \<bar>n\<bar> div 2 ^ e"
  have "0 \<le> q" unfolding q_def by (simp add: pos_imp_zdiv_nonneg_iff)
  then have "0 \<le> (if 2 ^ e < 2 * (\<bar>n\<bar> mod 2 ^ e) \<or> (2 * (\<bar>n\<bar> mod 2 ^ e) = 2 ^ e \<and> odd q) then q + 1 else q) * 2 ^ e"
    by simp
  then show ?thesis using n unfolding round_double_def Let_def size_ok_def e_def q_def
    by (simp split: number.splits)
qed

lemma bit_length_gt: "2 ^ k \<le> n \<Longrightarrow> k < bit_length n"
proof -
  assume "2 ^ k \<le> n"
  then have "(2::int) ^ k < 2 ^ bit_length n" using bit_length_lt[of n] by linarith
  then show ?thesis by (rule power_less_imp_less_exp[rotated]) simp
qed

text \<open>From \<open>2^1024\<close> on an integer rounds to infinity.\<close>

lemma round_double_overflow:
  assumes "2 ^ k \<le> n" and "1024 \<le> k"
  shows "round_double n = PosInf"
proof -
  define e where "e = bit_length \<bar>n\<bar> - 53"
  define q where "q = \<bar>n\<bar> div 2 ^ e"
  define r where "r = \<bar>n\<bar> mod 2 ^ e"
  define m where "m = (if 2 ^ e < 2 * r \<or> (2 * r = 2 ^ e \<and> odd q) then q + 1 else q) * 2 ^ e"
  have "(0::int) < 2 ^ k" by simp
  then have n0: "0 < n" using assms(1) by linarith
  then have a: "\<bar>n\<bar> = n" by simp
  have bl: "1024 < bit_length n" using bit_length_gt[OF assms(1)] assms(2) by linarith
  then have be: "bit_length n - 1 = e + 52" by (simp add: e_def a)
  have "(2::int) ^ e * 2 ^ 52 = 2 ^ (bit_length n - 1)" unfolding be by (rule power_add[symmetric])
  also have "\<dots> \<le> n" using n0 by (rule bit_length_ge)
  finally have le: "(2::int) ^ e * 2 ^ 52 \<le> n" .
  have "(2::int) ^ e * 2 ^ 52 div 2 ^ e \<le> n div 2 ^ e" using le by (rule zdiv_mono1) simp
  then have q: "2 ^ 52 \<le> q" unfolding q_def a by simp
  have "q * 2 ^ e \<le> m" unfolding m_def by (simp add: mult_right_mono)
  moreover have "(2::int) ^ 52 * 2 ^ e \<le> q * 2 ^ e" using q by (rule mult_right_mono) simp
  moreover have "(2::int) ^ (52 + e) = 2 ^ 52 * 2 ^ e" by (rule power_add)
  ultimately have "(2::int) ^ (52 + e) \<le> m" by linarith
  then have "52 + e < bit_length m" by (rule bit_length_gt)
  then have "1024 < bit_length m" using be bl by linarith
  then show ?thesis using n0 unfolding round_double_def Let_def m_def q_def r_def e_def by simp
qed

text \<open>Evaluation of \<open>bit_length\<close> on a numeral.\<close>

lemma bit_length_numeral [simp]:
  "bit_length 0 = 0"
  "bit_length 1 = 1"
  "bit_length (numeral (Num.Bit0 k)) = Suc (bit_length (numeral k))"
  "bit_length (numeral (Num.Bit1 k)) = Suc (bit_length (numeral k))"
  "bit_length (numeral Num.One) = 1"
proof -
  show "bit_length 0 = 0" by (simp add: bit_length.simps)
  show "bit_length 1 = 1" by (simp add: bit_length.simps)
  then show "bit_length (numeral Num.One) = 1" by simp
  have "numeral (Num.Bit0 k) div (2::int) = numeral k" by simp
  then show "bit_length (numeral (Num.Bit0 k)) = Suc (bit_length (numeral k))"
    by (subst bit_length.simps) simp
  have "numeral (Num.Bit1 k) div (2::int) = numeral k" by simp
  then show "bit_length (numeral (Num.Bit1 k)) = Suc (bit_length (numeral k))"
    by (subst bit_length.simps) simp
qed

section \<open>Selection\<close>
















section \<open>URL resolution\<close>

text \<open>
  C5. \<open>resolveUrl\<close> returns a string whatever the parser does: when the parser throws,
  the reference itself, unchanged; when it parses, the serialised URL.
\<close>

theorem resolveUrl_soft_fail:
  "(newURL href baseUrl = Inl e \<longrightarrow> resolveUrl newURL href baseUrl = href) \<and>
   (newURL href baseUrl = Inr u \<longrightarrow> resolveUrl newURL href baseUrl = u)"
  by (simp add: resolveUrl_def)

theorem resolveUrl_soft_fail_witness:
  "ex_newURL ''//['' ex_base = Inl TypeError \<and> resolveUrl ex_newURL ''//['' ex_base = ''//['' \<and>
   ex_newURL ''/a.png'' ex_base = Inr ''https://example.com/a.png'' \<and>
   resolveUrl ex_newURL ''/a.png'' ex_base = ''https://example.com/a.png''"
proof -
  have a: "ex_newURL ''//['' ex_base = Inl TypeError" by (simp add: ex_newURL_def)
  have b: "ex_newURL ''/a.png'' ex_base = Inr ''https://example.com/a.png''"
    by (simp add: ex_newURL_def)
  show ?thesis
    using a b resolveUrl_soft_fail[of ex_newURL "''//[''" ex_base TypeError]
      resolveUrl_soft_fail[of ex_newURL "''/a.png''" ex_base _ "''https://example.com/a.png''"]
    by blast
qed




section \<open>The manifest\<close>

lemma manifestLoop_failing:
  "\<forall>u. failing (fetch u) \<Longrightarrow> manifestLoop newURL fetch baseUrl ms acc = acc"
proof (induction ms arbitrary: acc)
  case Nil then show ?case by simp
next
  case (Cons m ms)
  have "\<And>u. fetchManifestIcons newURL fetch u baseUrl = []"
    using Cons.prems
    by (auto simp: failing_def fetchManifestIcons_def fetchManifestIcons_try_def
        split: fetch_result.splits json_body.splits)
  then show ?case using Cons by (simp split: option.splits)
qed

text \<open>
  C7. When the fetch of the manifest fails, answers with a non-success status or its
  body is not JSON, \<open>fetchManifestIcons\<close> returns no candidate (it returns: nothing is
  thrown), and an extraction all of whose fetches end so returns the candidates of the
  page. On success there is one candidate of type manifest and priority 4 for each
  entry of the icon array, its \<open>src\<close> resolved against the page's URL and its \<open>sizes\<close>
  parsed by \<open>parseSizes\<close>.
\<close>

theorem fetchManifestIcons_contract:
  "(failing (fetch manifestUrl) \<longrightarrow> fetchManifestIcons newURL fetch manifestUrl baseUrl = []) \<and>
   ((\<forall>u. failing (fetch u)) \<longrightarrow>
      extractIcons newURL fetch html baseUrl = directIcons newURL html baseUrl) \<and>
   (fetch manifestUrl = Response True (ManifestJson manifest) \<longrightarrow>
      fetchManifestIcons newURL fetch manifestUrl baseUrl =
        (case icons manifest of
           None \<Rightarrow> []
         | Some entries \<Rightarrow>
             map (\<lambda>icon. \<lparr>url = resolveUrl newURL (src icon) baseUrl,
                          width = fst (parseSizes (sizes icon)),
                          height = snd (parseSizes (sizes icon)),
                          type = Manifest, priority = 4\<rparr>) entries))"
proof (intro conjI impI)
  assume "failing (fetch manifestUrl)"
  then show "fetchManifestIcons newURL fetch manifestUrl baseUrl = []"
    by (auto simp: failing_def fetchManifestIcons_def fetchManifestIcons_try_def
        split: fetch_result.splits json_body.splits)
next
  assume "\<forall>u. failing (fetch u)"
  then show "extractIcons newURL fetch html baseUrl = directIcons newURL html baseUrl"
    by (simp add: extractIcons_def Let_def manifestLoop_failing)
next
  assume "fetch manifestUrl = Response True (ManifestJson manifest)"
  then show "fetchManifestIcons newURL fetch manifestUrl baseUrl =
        (case icons manifest of
           None \<Rightarrow> []
         | Some entries \<Rightarrow>
             map (\<lambda>icon. \<lparr>url = resolveUrl newURL (src icon) baseUrl,
                          width = fst (parseSizes (sizes icon)),
                          height = snd (parseSizes (sizes icon)),
                          type = Manifest, priority = 4\<rparr>) entries)"
    by (auto simp: fetchManifestIcons_def fetchManifestIcons_try_def manifestIcon_def
        Let_def split_beta split: option.splits)
qed

lemma parseSizes_512: "parseSizes (Some ''512x512'') = (Fin 512, Fin 512)"
  by code_simp

theorem fetchManifestIcons_contract_witness:
  "failing (ex_fetch ''https://example.com/bad.json'') \<and>
   fetchManifestIcons ex_newURL ex_fetch ''https://example.com/bad.json'' ex_base = [] \<and>
   failing (ex_fetch ''https://example.com/404.json'') \<and>
   fetchManifestIcons ex_newURL ex_fetch ''https://example.com/404.json'' ex_base = [] \<and>
   failing (ex_fetch ''https://example.com/gone.json'') \<and>
   fetchManifestIcons ex_newURL ex_fetch ''https://example.com/gone.json'' ex_base = [] \<and>
   extractIcons ex_newURL (\<lambda>u. FetchFails) og_page ex_base = directIcons ex_newURL og_page ex_base \<and>
   ex_fetch ''https://example.com/m.json'' = Response True (ManifestJson ex_manifest) \<and>
   fetchManifestIcons ex_newURL ex_fetch ''https://example.com/m.json'' ex_base =
     [\<lparr>url = ''https://example.com/i.png'', width = Fin 512, height = Fin 512,
       type = Manifest, priority = 4\<rparr>]"
proof -
  have f1: "failing (ex_fetch ''https://example.com/bad.json'')"
    and f2: "failing (ex_fetch ''https://example.com/404.json'')"
    and f3: "failing (ex_fetch ''https://example.com/gone.json'')"
    and f4: "\<forall>u. failing ((\<lambda>u. FetchFails) u)"
    and ok: "ex_fetch ''https://example.com/m.json'' = Response True (ManifestJson ex_manifest)"
    by (simp_all add: ex_fetch_def failing_def)
  have r: "resolveUrl ex_newURL ''/i.png'' ex_base = ''https://example.com/i.png''"
    by (simp add: resolveUrl_def ex_newURL_def)
  note c = fetchManifestIcons_contract[of ex_fetch _ ex_newURL ex_base]
  have "fetchManifestIcons ex_newURL ex_fetch ''https://example.com/m.json'' ex_base =
     [\<lparr>url = ''https://example.com/i.png'', width = Fin 512, height = Fin 512,
       type = Manifest, priority = 4\<rparr>]"
    using c[of "''https://example.com/m.json''" _ ex_manifest] ok
    by (simp add: ex_manifest_def r parseSizes_512)
  moreover have "extractIcons ex_newURL (\<lambda>u. FetchFails) og_page ex_base =
      directIcons ex_newURL og_page ex_base"
    using fetchManifestIcons_contract[of "\<lambda>u. FetchFails" _ ex_newURL ex_base og_page] f4 by blast
  ultimately show ?thesis
    using f1 f2 f3 ok c[of "''https://example.com/bad.json''"]
      c[of "''https://example.com/404.json''"] c[of "''https://example.com/gone.json''"]
    by blast
qed

section \<open>Attribute extraction\<close>

lemma canon_True: "canon True = upper"
  by (simp add: fun_eq_iff canon_def)

lemma canon_False: "canon False = (\<lambda>c. c)"
  by (simp add: fun_eq_iff canon_def)

lemma upper_eq_equals: "upper c = CHR ''='' \<longleftrightarrow> c = CHR ''=''"
  by (cases c) (auto simp: upper_code)

lemma upper_eq_lt: "upper c = CHR ''<'' \<longleftrightarrow> c = CHR ''<''"
  by (cases c) (auto simp: upper_code)

lemma search_iff:
  "search ic as 0 s = Some (i, ps) \<longleftrightarrow>
     i \<le> length s \<and> match_here ic as (drop i s) = Some ps \<and>
     (\<forall>j<i. match_here ic as (drop j s) = None)"
proof
  assume "search ic as 0 s = Some (i, ps)"
  from search_Some[OF this] show "i \<le> length s \<and> match_here ic as (drop i s) = Some ps \<and>
     (\<forall>j<i. match_here ic as (drop j s) = None)" by simp
next
  assume a: "i \<le> length s \<and> match_here ic as (drop i s) = Some ps \<and>
     (\<forall>j<i. match_here ic as (drop j s) = None)"
  then have "search ic as 0 s \<noteq> None" by (auto simp: search_None)
  then obtain i' ps' where s: "search ic as 0 s = Some (i', ps')" by auto
  from search_Some[OF s] have b: "match_here ic as (drop i' s) = Some ps'"
    "\<forall>k<i'. match_here ic as (drop k s) = None" by auto
  have "i' = i"
  proof (rule ccontr)
    assume "i' \<noteq> i"
    then consider "i' < i" | "i < i'" by linarith
    then show False using a b by cases auto
  qed
  then show "search ic as 0 s = Some (i, ps)" using s a b by simp
qed

lemma quoted_value_unique:
  assumes "v @ [q] @ r = v' @ [q'] @ r'"
    and "list_all (\<lambda>c. c \<notin> Q) v" "list_all (\<lambda>c. c \<notin> Q) v'" "q \<in> Q" "q' \<in> Q"
  shows "v = v'"
proof -
  have "takeWhile (\<lambda>c. c \<notin> Q) (v @ [q] @ r) = v"
    using assms(2,4) by (simp add: takeWhile_append2 list_all_iff)
  moreover have "takeWhile (\<lambda>c. c \<notin> Q) (v' @ [q'] @ r') = v'"
    using assms(3,5) by (simp add: takeWhile_append2 list_all_iff)
  ultimately show ?thesis using assms(1) by simp
qed

lemma attr_at_unique:
  assumes "attr_at name v t" "attr_at name w t"
  shows "v = w"
proof -
  from assms(1) obtain n q1 q2 rest where
    1: "t = n @ ''='' @ [q1] @ v @ [q2] @ rest" "map upper n = map upper name"
       "q2 \<in> set quotes" "list_all (\<lambda>c. c \<notin> set quotes) v"
    unfolding attr_at_def by blast
  from assms(2) obtain n' q1' q2' rest' where
    2: "t = n' @ ''='' @ [q1'] @ w @ [q2'] @ rest'" "map upper n' = map upper name"
       "q2' \<in> set quotes" "list_all (\<lambda>c. c \<notin> set quotes) w"
    unfolding attr_at_def by blast
  have "length n = length n'" using 1(2) 2(2) by (metis length_map)
  then have "v @ [q2] @ rest = w @ [q2'] @ rest'" using 1(1) 2(1) by simp
  then show ?thesis by (rule quoted_value_unique[OF _ 1(4) 2(4) 1(3) 2(3)])
qed

lemma one_cls_piece: "atom_ok ic (One k) p \<longleftrightarrow> (\<exists>c. p = [c] \<and> in_cls k c)"
  by (cases p) auto

lemma lit_piece: "atom_ok True (Lit l) p \<longleftrightarrow> map upper p = map upper l"
  by (simp add: canon_True)

lemma list_all2_four:
  "list_all2 P [a, b, c, d] ps \<longleftrightarrow>
     (\<exists>p q r s. ps = [p, q, r, s] \<and> P a p \<and> P b q \<and> P c r \<and> P d s)"
  by (auto simp: list_all2_Cons1)

lemma map_upper_snoc_equals:
  "map upper p = map upper (name @ ''='') \<longleftrightarrow>
     (\<exists>n. p = n @ ''='' \<and> map upper n = map upper name)"
proof
  assume a: "map upper p = map upper (name @ ''='')"
  then have "length p = Suc (length name)" by (metis length_map length_append_singleton)
  then have "p \<noteq> []" by auto
  then have p: "p = butlast p @ [last p]" by simp
  have "map upper (butlast p) @ [upper (last p)] = map upper name @ [upper CHR ''='']"
    using a p by (metis list.simps(8) list.simps(9) map_append)
  then have "map upper (butlast p) = map upper name" "upper (last p) = upper CHR ''=''"
    by simp_all
  moreover have "upper CHR ''='' = CHR ''=''" by (simp add: upper_code)
  ultimately have "map upper (butlast p) = map upper name" "last p = CHR ''=''"
    by (simp_all add: upper_eq_equals)
  then show "\<exists>n. p = n @ ''='' \<and> map upper n = map upper name" using p by metis
next
  assume "\<exists>n. p = n @ ''='' \<and> map upper n = map upper name"
  then show "map upper p = map upper (name @ ''='')" by auto
qed

lemma attribute_pieces:
  "list_all2 (atom_ok True) (atoms (attributeRegex name)) ps \<longleftrightarrow>
     (\<exists>n q1 v q2. ps = [n @ ''='', [q1], v, [q2]] \<and> map upper n = map upper name \<and>
        q1 \<in> set quotes \<and> q2 \<in> set quotes \<and> list_all (\<lambda>c. c \<notin> set quotes) v)"
proof -
  have "list_all2 (atom_ok True) (atoms (attributeRegex name)) ps \<longleftrightarrow>
     (\<exists>p q r s. ps = [p, q, r, s] \<and> map upper p = map upper (name @ ''='') \<and>
        (\<exists>c. q = [c] \<and> c \<in> set quotes) \<and> list_all (\<lambda>c. c \<notin> set quotes) r \<and>
        (\<exists>c. s = [c] \<and> c \<in> set quotes))"
    unfolding attributeRegex_def regex.simps list_all2_four one_cls_piece lit_piece
    by (simp add: list_all_iff)
  also have "\<dots> \<longleftrightarrow> (\<exists>n q1 v q2. ps = [n @ ''='', [q1], v, [q2]] \<and> map upper n = map upper name \<and>
        q1 \<in> set quotes \<and> q2 \<in> set quotes \<and> list_all (\<lambda>c. c \<notin> set quotes) v)"
    unfolding map_upper_snoc_equals by blast
  finally show ?thesis .
qed

lemma match_attr_sound:
  assumes "match_here True (atoms (attributeRegex name)) t = Some ps"
  shows "attr_at name (ps ! 2) t"
proof -
  from match_here_sound[OF assms] have s: "list_all2 (atom_ok True) (atoms (attributeRegex name)) ps"
    "prefix (concat ps) t" by auto
  from s(1) obtain n q1 v q2 where p: "ps = [n @ ''='', [q1], v, [q2]]" "map upper n = map upper name"
        "q1 \<in> set quotes" "q2 \<in> set quotes" "list_all (\<lambda>c. c \<notin> set quotes) v"
    unfolding attribute_pieces by blast
  from s(2) p(1) obtain rest where "t = n @ ''='' @ [q1] @ v @ [q2] @ rest"
    by (auto simp: prefix_def)
  then show ?thesis unfolding attr_at_def using p by auto
qed

lemma match_attr_complete:
  assumes "attr_at name v t"
  shows "\<exists>ps. match_here True (atoms (attributeRegex name)) t = Some ps \<and> ps ! 2 = v"
proof -
  from assms obtain n q1 q2 rest where
    1: "t = n @ ''='' @ [q1] @ v @ [q2] @ rest" "map upper n = map upper name"
       "q1 \<in> set quotes" "q2 \<in> set quotes" "list_all (\<lambda>c. c \<notin> set quotes) v"
    unfolding attr_at_def by blast
  let ?ps = "[n @ ''='', [q1], v, [q2]]"
  have "list_all2 (atom_ok True) (atoms (attributeRegex name)) ?ps"
    unfolding attribute_pieces using 1 by blast
  moreover have "prefix (concat ?ps) t" using 1(1) by (simp add: prefix_def)
  ultimately have "match_here True (atoms (attributeRegex name)) t \<noteq> None"
    by (rule match_here_complete)
  then obtain ps where m: "match_here True (atoms (attributeRegex name)) t = Some ps" by auto
  from match_attr_sound[OF m] assms have "ps ! 2 = v" by (rule attr_at_unique)
  with m show ?thesis by blast
qed

lemma match_attr_None:
  "match_here True (atoms (attributeRegex name)) t = None \<longleftrightarrow> (\<forall>w. \<not> attr_at name w t)"
  using match_attr_sound match_attr_complete by (metis option.exhaust option.distinct(1))

text \<open>
  C9, amended. For a literal attribute name, \<open>extractAttribute\<close> returns the value of
  the leftmost place of the fragment where the name (in any case), \<^verbatim>\<open>=\<close>, a quote, a run of characters
  that are not quotes and a quote follow one another; the opening and the closing quote
  are each single or double and need not be of the same kind, and the value ends at the
  first quote of either kind. Where there is no such place the result is absent.
\<close>

theorem extractAttribute_first_quoted:
  assumes "literal_name attributeName"
  shows "(extractAttribute html attributeName = Some v \<longleftrightarrow>
      (\<exists>i\<le>length html. attr_at attributeName v (drop i html) \<and>
         (\<forall>j<i. \<forall>w. \<not> attr_at attributeName w (drop j html)))) \<and>
   (extractAttribute html attributeName = None \<longleftrightarrow>
      (\<forall>i\<le>length html. \<forall>w. \<not> attr_at attributeName w (drop i html)))"
proof -
  let ?as = "atoms (attributeRegex attributeName)"
  have ic: "ignoreCase (attributeRegex attributeName) = True" by (simp add: attributeRegex_def)
  have ex: "extractAttribute html attributeName =
      (case search True ?as 0 html of None \<Rightarrow> None | Some (i, ps) \<Rightarrow> Some (ps ! 2))"
    by (auto simp: extractAttribute_def match_first_def regex_exec_def ic split: option.splits)
  have none: "extractAttribute html attributeName = None \<longleftrightarrow>
      (\<forall>i\<le>length html. \<forall>w. \<not> attr_at attributeName w (drop i html))"
  proof -
    have "extractAttribute html attributeName = None \<longleftrightarrow> search True ?as 0 html = None"
      unfolding ex by (auto split: option.splits)
    then show ?thesis by (simp add: search_None match_attr_None)
  qed
  have some: "extractAttribute html attributeName = Some v \<longleftrightarrow>
      (\<exists>i\<le>length html. attr_at attributeName v (drop i html) \<and>
         (\<forall>j<i. \<forall>w. \<not> attr_at attributeName w (drop j html)))"
  proof
    assume "extractAttribute html attributeName = Some v"
    then obtain i ps where s: "search True ?as 0 html = Some (i, ps)" "ps ! 2 = v"
      unfolding ex by (auto split: option.splits)
    from s(1) have "i \<le> length html" "match_here True ?as (drop i html) = Some ps"
      "\<forall>j<i. match_here True ?as (drop j html) = None" by (simp_all add: search_iff)
    then show "\<exists>i\<le>length html. attr_at attributeName v (drop i html) \<and>
         (\<forall>j<i. \<forall>w. \<not> attr_at attributeName w (drop j html))"
      using match_attr_sound s(2) by (auto simp: match_attr_None)
  next
    assume "\<exists>i\<le>length html. attr_at attributeName v (drop i html) \<and>
         (\<forall>j<i. \<forall>w. \<not> attr_at attributeName w (drop j html))"
    then obtain i where i: "i \<le> length html" "attr_at attributeName v (drop i html)"
      "\<forall>j<i. \<forall>w. \<not> attr_at attributeName w (drop j html)" by blast
    from match_attr_complete[OF i(2)] obtain ps where
      p: "match_here True ?as (drop i html) = Some ps" "ps ! 2 = v" by blast
    have "search True ?as 0 html = Some (i, ps)"
      unfolding search_iff using i(1,3) p(1) by (simp add: match_attr_None)
    then show "extractAttribute html attributeName = Some v" unfolding ex using p(2) by simp
  qed
  show ?thesis using some none by blast
qed

theorem extractAttribute_first_quoted_witness:
  "literal_name ''href'' \<and> extractAttribute mixed_quotes ''href'' = Some ''x'' \<and>
   (\<exists>i\<le>length mixed_quotes. attr_at ''href'' ''x'' (drop i mixed_quotes) \<and>
      (\<forall>j<i. \<forall>w. \<not> attr_at ''href'' w (drop j mixed_quotes))) \<and>
   extractAttribute ''<a href=x>'' ''href'' = None \<and>
   \<not> attr_at ''href'' ''x'' (drop 3 ''<a href=x>'')"
proof -
  have e1: "extractAttribute mixed_quotes ''href'' = Some ''x''" by code_simp
  have e2: "extractAttribute ''<a href=x>'' ''href'' = None" by code_simp
  have l: "literal_name ''href''" by (simp add: literal_name_def pattern_syntax_def)
  have "\<forall>i\<le>length ''<a href=x>''. \<forall>w. \<not> attr_at ''href'' w (drop i ''<a href=x>'')"
    using extractAttribute_first_quoted[OF l, of "''<a href=x>''"] e2 by blast
  moreover have "3 \<le> length ''<a href=x>''" by simp
  ultimately have "\<not> attr_at ''href'' ''x'' (drop 3 ''<a href=x>'')" by blast
  then show ?thesis
    using l e1 e2 extractAttribute_first_quoted[OF l, of mixed_quotes "''x''"] by blast
qed

text \<open>
  The closing quote need not match the opening one, and a value ends at a quote of the
  other kind: the extractor differs from the one that asks for matching quotes.
\<close>

theorem extractAttribute_mismatched_quotes:
  "extractAttribute unclosed_quote ''href'' = Some ''a'' \<and>
   spec_extractAttribute unclosed_quote ''href'' = None \<and>
   extractAttribute inner_quote ''href'' = Some ''it'' \<and>
   spec_extractAttribute inner_quote ''href'' = Some (''it'' @ [sq] @ ''s'')"
  by code_simp

section \<open>Size parsing\<close>

lemma match_here_tail:
  assumes "match_here ic (a # as) s = Some (p # ps)"
  shows "atom_ok ic a p \<and> prefix p s \<and> match_here ic as (drop (length p) s) = Some ps"
proof -
  from match_here_Cons[OF assms] obtain n where
    n: "p = take n s" "n \<in> set (lengths ic a s)" "match_here ic as (drop n s) = Some ps" by auto
  from lengths_sound[OF n(2)] have "n \<le> length s" "atom_ok ic a (take n s)" by auto
  then show ?thesis using n by (simp add: take_is_prefix)
qed

lemma list_all2_three:
  "list_all2 P [a, b, c] ps \<longleftrightarrow> (\<exists>p q r. ps = [p, q, r] \<and> P a p \<and> P b q \<and> P c r)"
  by (auto simp: list_all2_Cons1)

lemma dims_pieces:
  "list_all2 (atom_ok False) (atoms dimRegex) ps \<longleftrightarrow>
     (\<exists>p0 p2. ps = [p0, ''x'', p2] \<and> p0 \<noteq> [] \<and> p2 \<noteq> [] \<and>
        list_all (in_cls Digit) p0 \<and> list_all (in_cls Digit) p2)"
  unfolding dimRegex_def regex.simps list_all2_three
  by (auto simp: canon_False)

lemma match_dims_sound:
  assumes "match_here False (atoms dimRegex) t = Some ps"
  shows "ps = [ps ! 0, ''x'', ps ! 2] \<and> dims_at (ps ! 0) (ps ! 2) t"
proof -
  from match_here_sound[OF assms] have s: "list_all2 (atom_ok False) (atoms dimRegex) ps"
    "prefix (concat ps) t" by auto
  from s(1) obtain p0 p2 where p: "ps = [p0, ''x'', p2]" "p0 \<noteq> []" "p2 \<noteq> []"
    "list_all (in_cls Digit) p0" "list_all (in_cls Digit) p2"
    unfolding dims_pieces by blast
  from s(2) p(1) obtain rest where "t = p0 @ ''x'' @ p2 @ rest" by (auto simp: prefix_def)
  then show ?thesis unfolding dims_at_def using p by auto
qed

lemma match_dims_None:
  "match_here False (atoms dimRegex) t = None \<longleftrightarrow> (\<forall>e1 e2. \<not> dims_at e1 e2 t)"
proof
  assume "match_here False (atoms dimRegex) t = None"
  show "\<forall>e1 e2. \<not> dims_at e1 e2 t"
  proof (intro allI notI)
    fix e1 e2 assume "dims_at e1 e2 t"
    then obtain rest where r: "t = e1 @ ''x'' @ e2 @ rest" "e1 \<noteq> []" "e2 \<noteq> []"
      "list_all (in_cls Digit) e1" "list_all (in_cls Digit) e2"
      unfolding dims_at_def by blast
    have "list_all2 (atom_ok False) (atoms dimRegex) [e1, ''x'', e2]"
      unfolding dims_pieces using r by blast
    moreover have "prefix (concat [e1, ''x'', e2]) t" using r(1) by (simp add: prefix_def)
    ultimately have "match_here False (atoms dimRegex) t \<noteq> None" by (rule match_here_complete)
    then show False using \<open>match_here False (atoms dimRegex) t = None\<close> by simp
  qed
next
  assume a: "\<forall>e1 e2. \<not> dims_at e1 e2 t"
  show "match_here False (atoms dimRegex) t = None"
  proof (rule ccontr)
    assume "match_here False (atoms dimRegex) t \<noteq> None"
    then obtain ps where "match_here False (atoms dimRegex) t = Some ps" by auto
    from match_dims_sound[OF this] a show False by blast
  qed
qed

lemma digit_run_unique:
  assumes "d @ c # r = e @ c' # r'"
    and "list_all (in_cls Digit) d" "list_all (in_cls Digit) e"
    and "\<not> in_cls Digit c" "\<not> in_cls Digit c'"
  shows "d = e"
proof -
  have "takeWhile (in_cls Digit) (d @ c # r) = d"
    using assms(2,4) by (simp add: takeWhile_append2 list_all_iff)
  moreover have "takeWhile (in_cls Digit) (e @ c' # r') = e"
    using assms(3,5) by (simp add: takeWhile_append2 list_all_iff)
  ultimately show ?thesis using assms(1) by simp
qed

lemma dims_at_first_unique:
  assumes "dims_at d1 d2 t" "dims_at e1 e2 t"
  shows "d1 = e1"
proof -
  from assms(1) obtain r where 1: "t = d1 @ ''x'' @ d2 @ r" "list_all (in_cls Digit) d1"
    unfolding dims_at_def by blast
  from assms(2) obtain r' where 2: "t = e1 @ ''x'' @ e2 @ r'" "list_all (in_cls Digit) e1"
    unfolding dims_at_def by blast
  have "d1 @ CHR ''x'' # (d2 @ r) = e1 @ CHR ''x'' # (e2 @ r')" using 1(1) 2(1) by simp
  then show ?thesis by (rule digit_run_unique[OF _ 1(2) 2(2)]) simp_all
qed

lemma match_dims_exact:
  assumes m: "match_here False (atoms dimRegex) t = Some ps"
    and d: "dims_at d1 d2 t"
    and mx: "\<not> (\<exists>c rest. t = d1 @ ''x'' @ d2 @ c # rest \<and> in_cls Digit c)"
  shows "ps = [d1, ''x'', d2]"
proof -
  from match_dims_sound[OF m] have ps: "ps = [ps ! 0, ''x'', ps ! 2]" and pd: "dims_at (ps ! 0) (ps ! 2) t"
    by auto
  have p0: "ps ! 0 = d1" using pd d by (rule dims_at_first_unique)
  from d obtain rest where t: "t = d1 @ ''x'' @ d2 @ rest" "d2 \<noteq> []" "list_all (in_cls Digit) d2"
    unfolding dims_at_def by blast
  from pd obtain rest' where t': "t = ps ! 0 @ ''x'' @ ps ! 2 @ rest'" "list_all (in_cls Digit) (ps ! 2)"
    unfolding dims_at_def by blast
  have e: "d2 @ rest = ps ! 2 @ rest'" using t(1) t'(1) p0 by simp
  have m0: "match_here False (Plus Digit # [Lit ''x'', Plus Digit]) t = Some (d1 # [''x'', ps ! 2])"
    using m ps p0 by (simp add: dimRegex_def)
  from match_here_tail[OF m0] have m1:
    "match_here False (Lit ''x'' # [Plus Digit]) (drop (length d1) t) = Some (''x'' # [ps ! 2])" by simp
  from match_here_tail[OF m1] have m2:
    "match_here False (Plus Digit # []) (drop (length ''x'') (drop (length d1) t)) = Some (ps ! 2 # [])"
    by simp
  have dr: "drop (length ''x'') (drop (length d1) t) = d2 @ rest" using t(1) by simp
  have "length d2 \<le> length (ps ! 2)"
    by (rule match_here_greedy[OF m2, of d2 "[]"]) (use t dr in simp_all)
  moreover have "length (ps ! 2) \<le> length d2"
  proof (rule ccontr)
    assume "\<not> length (ps ! 2) \<le> length d2"
    then have lt: "length d2 < length (ps ! 2)" by simp
    have "take (length d2) (ps ! 2 @ rest') = d2" using e by (metis append_eq_conv_conj)
    then have pd2: "take (length d2) (ps ! 2) = d2" using lt by simp
    have "drop (length d2) (ps ! 2 @ rest') = rest" using e by (metis append_eq_conv_conj)
    then have r: "rest = drop (length d2) (ps ! 2) @ rest'" using lt by simp
    define c where "c = (ps ! 2) ! length d2"
    have "drop (length d2) (ps ! 2) = c # drop (Suc (length d2)) (ps ! 2)"
      unfolding c_def using lt by (simp add: Cons_nth_drop_Suc)
    then have "rest = c # (drop (Suc (length d2)) (ps ! 2) @ rest')" using r by simp
    moreover have "in_cls Digit c" unfolding c_def using t'(2) lt by (simp add: list_all_length)
    ultimately show False using mx t(1) by blast
  qed
  ultimately have "length (ps ! 2) = length d2" by simp
  then have "ps ! 2 = d2" using e by simp
  then show ?thesis using ps p0 by simp
qed

text \<open>The digits of a string are read from the left, as their positions say.\<close>

lemma digits_value_snoc: "digits_value (ds @ [c]) = 10 * digits_value ds + digit_val c"
proof -
  have "(\<Sum>i<length ds. digit_val ((ds @ [c]) ! i) * 10 ^ (length (ds @ [c]) - Suc i)) =
        (\<Sum>i<length ds. 10 * (digit_val (ds ! i) * 10 ^ (length ds - Suc i)))"
  proof (rule sum.cong[OF refl])
    fix i assume "i \<in> {..<length ds}"
    then have i: "i < length ds" by simp
    then have "length (ds @ [c]) - Suc i = Suc (length ds - Suc i)" by simp
    then show "digit_val ((ds @ [c]) ! i) * 10 ^ (length (ds @ [c]) - Suc i) =
               10 * (digit_val (ds ! i) * 10 ^ (length ds - Suc i))"
      using i by (simp add: nth_append)
  qed
  then show ?thesis by (simp add: digits_value_def sum_distrib_left)
qed

lemma decimal_digits_value: "decimal ds = digits_value ds"
proof (induction ds rule: rev_induct)
  case Nil
  then show ?case by (simp add: decimal_def digits_value_def)
next
  case (snoc c ds)
  then show ?case by (simp add: decimal_def digits_value_snoc)
qed

lemma decimal_nonneg: "list_all (in_cls Digit) ds \<Longrightarrow> 0 \<le> decimal ds"
proof (induction ds rule: rev_induct)
  case Nil
  then show ?case by (simp add: decimal_def)
next
  case (snoc c ds)
  have "0 \<le> digit_val c" using snoc.prems by (auto simp: digit_val_def)
  then show ?case using snoc by (simp add: decimal_def)
qed

lemma parseInt_size_ok: "list_all (in_cls Digit) ds \<Longrightarrow> size_ok (parseInt ds)"
  unfolding parseInt_def by (intro round_double_nonneg decimal_nonneg)

lemma parseInt_exact:
  assumes "list_all (in_cls Digit) ds" and "digits_value ds < 2 ^ 53"
  shows "parseInt ds = Fin (digits_value ds)"
proof -
  have "0 \<le> digits_value ds" using decimal_nonneg[OF assms(1)] by (simp add: decimal_digits_value)
  then have "\<bar>digits_value ds\<bar> < 2 ^ 53" using assms(2) by simp
  then show ?thesis by (simp add: parseInt_def decimal_digits_value round_double_exact)
qed

text \<open>The size parser on a descriptor with a pattern of digits, \<^verbatim>\<open>x\<close> and digits.\<close>

lemma parseSizes_dims:
  assumes "dims_at d1 d2 (drop i s)"
    and "\<not> (\<exists>c rest. drop i s = d1 @ ''x'' @ d2 @ c # rest \<and> in_cls Digit c)"
    and "\<forall>j<i. \<forall>e1 e2. \<not> dims_at e1 e2 (drop j s)"
  shows "parseSizes (Some s) = (parseInt d1, parseInt d2)"
proof -
  have ne: "drop i s \<noteq> []" using assms(1) unfolding dims_at_def by auto
  then have i: "i \<le> length s" "s \<noteq> []" by auto
  have "match_here False (atoms dimRegex) (drop i s) \<noteq> None"
    using assms(1) by (auto simp: match_dims_None)
  then obtain ps where m: "match_here False (atoms dimRegex) (drop i s) = Some ps" by auto
  have ps: "ps = [d1, ''x'', d2]" using m assms(1,2) by (rule match_dims_exact)
  have "search False (atoms dimRegex) 0 s = Some (i, ps)"
    unfolding search_iff using i(1) m assms(3) by (simp add: match_dims_None)
  then have "match_first dimRegex s = Some ps"
    by (simp add: match_first_def regex_exec_def dimRegex_def)
  then show ?thesis using i(2) ps by (simp add: parseSizes_def)
qed

text \<open>A width of a one and \<open>n\<close> zeros is the double of \<open>10 ^ n\<close>; from 309 zeros on, infinity.\<close>

lemma decimal_zeros: "decimal (CHR ''1'' # replicate n CHR ''0'') = 10 ^ n"
proof -
  have "foldl (\<lambda>n c. 10 * n + digit_val c) a (replicate n CHR ''0'') = a * 10 ^ n" for a
    by (induction n arbitrary: a) (simp_all add: digit_val_def)
  then show ?thesis by (simp add: decimal_def digit_val_def)
qed

lemma parseSizes_zeros:
  "parseSizes (Some (''1'' @ replicate n CHR ''0'' @ ''x1'')) = (round_double (10 ^ n), Fin 1)"
proof -
  let ?d = "''1'' @ replicate n CHR ''0''"
  have d: "dims_at ?d ''1'' (drop 0 (?d @ ''x1''))"
    unfolding dims_at_def by (intro exI[of _ "[]"]) (simp add: list_all_iff)
  have mx: "\<not> (\<exists>c rest. drop 0 (?d @ ''x1'') = ?d @ ''x'' @ ''1'' @ c # rest \<and> in_cls Digit c)"
    by simp
  have "parseSizes (Some (?d @ ''x1'')) = (parseInt ?d, parseInt ''1'')"
    using d mx by (rule parseSizes_dims) simp
  moreover have "parseInt ''1'' = Fin 1" by code_simp
  ultimately show ?thesis by (simp add: parseInt_def decimal_zeros)
qed

lemma parseSizes_huge: "parseSizes (Some huge_sizes) = (PosInf, Fin 1)"
proof -
  have "(2::int) ^ 1024 \<le> 10 ^ 309" by simp
  then have "round_double (10 ^ 309) = PosInf" by (rule round_double_overflow) simp
  then show ?thesis unfolding huge_sizes_def parseSizes_zeros by (rule arg_cong2[OF _ refl])
qed

text \<open>
  C3. When a size descriptor holds a pattern of digits, a lower-case \<^verbatim>\<open>x\<close> and digits,
  and the two integers of the first such pattern, the second run of digits taken
  whole, are below \<open>2^53\<close>, \<open>parseSizes\<close> returns these two integers. An upper-case
  \<^verbatim>\<open>X\<close> does not make a pattern.
\<close>

theorem parseSizes_first_dimensions:
  assumes "dims_at d1 d2 (drop i s)"
    and "\<not> (\<exists>c rest. drop i s = d1 @ ''x'' @ d2 @ c # rest \<and> in_cls Digit c)"
    and "\<forall>j<i. \<forall>e1 e2. \<not> dims_at e1 e2 (drop j s)"
    and "digits_value d1 < 2 ^ 53" and "digits_value d2 < 2 ^ 53"
  shows "parseSizes (Some s) = (Fin (digits_value d1), Fin (digits_value d2))"
proof -
  have "list_all (in_cls Digit) d1" "list_all (in_cls Digit) d2"
    using assms(1) unfolding dims_at_def by auto
  then have "parseInt d1 = Fin (digits_value d1)" "parseInt d2 = Fin (digits_value d2)"
    using assms(4,5) by (simp_all add: parseInt_exact)
  then show ?thesis using parseSizes_dims[OF assms(1,2,3)] by simp
qed

text \<open>
  In \<^verbatim>\<open>1x 16x24 8x8\<close> the first pattern is \<^verbatim>\<open>16x24\<close>: the \<^verbatim>\<open>x\<close> at index 1 is followed by
  a space.
\<close>

theorem parseSizes_first_dimensions_witness:
  "dims_at ''16'' ''24'' (drop 3 ''1x 16x24 8x8'') \<and>
   digits_value ''16'' = 16 \<and> digits_value ''24'' = 24 \<and>
   parseSizes (Some ''1x 16x24 8x8'') = (Fin 16, Fin 24)"
proof -
  let ?s = "''1x 16x24 8x8''"
  have d: "dims_at ''16'' ''24'' (drop 3 ?s)"
    unfolding dims_at_def by (intro exI[of _ "'' 8x8''"]) simp
  have mx: "\<not> (\<exists>c rest. drop 3 ?s = ''16'' @ ''x'' @ ''24'' @ c # rest \<and> in_cls Digit c)"
    by simp
  have n0: "match_here False (atoms dimRegex) (drop 0 ?s) = None" by code_simp
  have n1: "match_here False (atoms dimRegex) (drop 1 ?s) = None" by code_simp
  have n2: "match_here False (atoms dimRegex) (drop 2 ?s) = None" by code_simp
  have "j = 0 \<or> j = 1 \<or> j = 2" if "j < 3" for j :: nat using that by linarith
  then have first: "\<forall>j<3. \<forall>e1 e2. \<not> dims_at e1 e2 (drop j ?s)"
    using n0 n1 n2 unfolding match_dims_None by blast
  have p: "digits_value ''16'' = 16" "digits_value ''24'' = 24"
    by (simp_all add: digits_value_def digit_val_def lessThan_Suc numeral_2_eq_2)
  have b: "digits_value ''16'' < 2 ^ 53" "digits_value ''24'' < 2 ^ 53" unfolding p by simp_all
  show ?thesis
    using d parseSizes_first_dimensions[OF d mx first b] p by simp
qed

text \<open>
  With an upper-case \<^verbatim>\<open>X\<close> the height is lost: the first run of digits is both sizes.
  An integer from \<open>2^53\<close> on may come back rounded: \<open>2^53 + 1\<close> is no double.
\<close>

theorem parseSizes_upper_case_x:
  "parseSizes (Some ''180X90'') = (Fin 180, Fin 180) \<and>
   parseSizes (Some ''180X90'') \<noteq> (Fin 180, Fin 90) \<and>
   parseSizes (Some ''9007199254740993x1'') = (Fin 9007199254740992, Fin 1)"
  by code_simp

section \<open>Invariants of extraction\<close>

lemma match_first_sound:
  assumes "match_first r s = Some ps"
  shows "list_all2 (atom_ok (ignoreCase r)) (atoms r) ps"
proof -
  from assms obtain j where "search (ignoreCase r) (atoms r) 0 s = Some (j, ps)"
    by (auto simp: match_first_def regex_exec_def)
  from search_Some[OF this] show ?thesis using match_here_sound by blast
qed

lemma parseSizes_size_ok: "size_ok (fst (parseSizes sz)) \<and> size_ok (snd (parseSizes sz))"
proof -
  have d: "size_ok (parseInt (ps ! 0)) \<and> size_ok (parseInt (ps ! 2))"
    if "match_first dimRegex s = Some ps" for s ps
  proof -
    from match_first_sound[OF that] have "list_all2 (atom_ok False) [Plus Digit, Lit ''x'', Plus Digit] ps"
      by (simp add: dimRegex_def)
    then obtain p0 p1 p2 where "ps = [p0, p1, p2]" "list_all (in_cls Digit) p0" "list_all (in_cls Digit) p2"
      by (auto simp: list_all2_Cons1)
    then show ?thesis by (simp add: parseInt_size_ok)
  qed
  have e: "size_ok (parseInt (ps ! 0))" if "match_first singleRegex s = Some ps" for s ps
  proof -
    from match_first_sound[OF that] have "list_all2 (atom_ok False) [Plus Digit] ps"
      by (simp add: singleRegex_def)
    then obtain p0 where "ps = [p0]" "list_all (in_cls Digit) p0"
      by (auto simp: list_all2_Cons1)
    then show ?thesis by (simp add: parseInt_size_ok)
  qed
  have f: "size_ok (Fin 32)" by (simp add: size_ok_def)
  show ?thesis
    using d e f by (auto simp: parseSizes_def Let_def split: option.splits)
qed

text \<open>
  What holds of the candidate pushed for each match, its reference not empty, holds of
  every candidate of a loop.
\<close>

lemma appleLoop_inv:
  assumes "\<forall>c\<in>set acc. Q c"
    and "\<And>m href. m \<in> set ms \<Longrightarrow> extractAttribute m ''href'' = Some href \<Longrightarrow> href \<noteq> [] \<Longrightarrow>
           Q \<lparr>url = resolveUrl newURL href baseUrl,
              width = fst (parseSizes (extractAttribute m ''sizes'')),
              height = snd (parseSizes (extractAttribute m ''sizes'')),
              type = AppleTouchIcon, priority = 1\<rparr>"
  shows "\<forall>c\<in>set (appleLoop newURL baseUrl ms acc). Q c"
  using assms
proof (induction ms arbitrary: acc)
  case Nil then show ?case by simp
next
  case (Cons m ms)
  show ?case
    unfolding appleLoop.simps
  proof (rule Cons.IH)
    show "\<forall>c\<in>set (case extractAttribute m ''href'' of
              None \<Rightarrow> acc
            | Some href \<Rightarrow>
                if href = [] then acc
                else (let iconUrl = resolveUrl newURL href baseUrl;
                          (w, h) = parseSizes (extractAttribute m ''sizes'')
                      in acc @ [\<lparr>url = iconUrl, width = w, height = h,
                                 type = AppleTouchIcon, priority = 1\<rparr>])). Q c"
      using Cons.prems(1) Cons.prems(2)[of m]
      by (auto simp: Let_def split_beta split: option.splits)
  next
    fix m' href
    assume "m' \<in> set ms" "extractAttribute m' ''href'' = Some href" "href \<noteq> []"
    then show "Q \<lparr>url = resolveUrl newURL href baseUrl,
              width = fst (parseSizes (extractAttribute m' ''sizes'')),
              height = snd (parseSizes (extractAttribute m' ''sizes'')),
              type = AppleTouchIcon, priority = 1\<rparr>"
      by (intro Cons.prems(2)) simp_all
  qed
qed

lemma faviconLoop_inv:
  assumes "\<forall>c\<in>set acc. Q c"
    and "\<And>m href. m \<in> set ms \<Longrightarrow> extractAttribute m ''href'' = Some href \<Longrightarrow> href \<noteq> [] \<Longrightarrow>
           Q \<lparr>url = resolveUrl newURL href baseUrl,
              width = fst (parseSizes (extractAttribute m ''sizes'')),
              height = snd (parseSizes (extractAttribute m ''sizes'')),
              type = Favicon, priority = 2\<rparr>"
  shows "\<forall>c\<in>set (faviconLoop newURL baseUrl ms acc). Q c"
  using assms
proof (induction ms arbitrary: acc)
  case Nil then show ?case by simp
next
  case (Cons m ms)
  show ?case
    unfolding faviconLoop.simps
  proof (rule Cons.IH)
    show "\<forall>c\<in>set (case extractAttribute m ''href'' of
              None \<Rightarrow> acc
            | Some href \<Rightarrow>
                if href = [] then acc
                else (let iconUrl = resolveUrl newURL href baseUrl;
                          (w, h) = parseSizes (extractAttribute m ''sizes'')
                      in acc @ [\<lparr>url = iconUrl, width = w, height = h,
                                 type = Favicon, priority = 2\<rparr>])). Q c"
      using Cons.prems(1) Cons.prems(2)[of m]
      by (auto simp: Let_def split_beta split: option.splits)
  next
    fix m' href
    assume "m' \<in> set ms" "extractAttribute m' ''href'' = Some href" "href \<noteq> []"
    then show "Q \<lparr>url = resolveUrl newURL href baseUrl,
              width = fst (parseSizes (extractAttribute m' ''sizes'')),
              height = snd (parseSizes (extractAttribute m' ''sizes'')),
              type = Favicon, priority = 2\<rparr>"
      by (intro Cons.prems(2)) simp_all
  qed
qed

lemma ogLoop_inv:
  assumes "\<forall>c\<in>set acc. Q c"
    and "\<And>m content. m \<in> set ms \<Longrightarrow> extractAttribute m ''content'' = Some content \<Longrightarrow>
           content \<noteq> [] \<Longrightarrow>
           Q \<lparr>url = resolveUrl newURL content baseUrl, width = Fin 1200, height = Fin 630,
              type = OgImage, priority = 3\<rparr>"
  shows "\<forall>c\<in>set (ogLoop newURL baseUrl ms acc). Q c"
  using assms
proof (induction ms arbitrary: acc)
  case Nil then show ?case by simp
next
  case (Cons m ms)
  show ?case
    unfolding ogLoop.simps
  proof (rule Cons.IH)
    show "\<forall>c\<in>set (case extractAttribute m ''content'' of
              None \<Rightarrow> acc
            | Some content \<Rightarrow>
                if content = [] then acc
                else (let iconUrl = resolveUrl newURL content baseUrl
                      in acc @ [\<lparr>url = iconUrl, width = Fin 1200, height = Fin 630,
                                 type = OgImage, priority = 3\<rparr>])). Q c"
      using Cons.prems(1) Cons.prems(2)[of m]
      by (auto simp: Let_def split: option.splits)
  next
    fix m' content
    assume "m' \<in> set ms" "extractAttribute m' ''content'' = Some content" "content \<noteq> []"
    then show "Q \<lparr>url = resolveUrl newURL content baseUrl, width = Fin 1200, height = Fin 630,
              type = OgImage, priority = 3\<rparr>"
      by (intro Cons.prems(2)) simp_all
  qed
qed

lemma fetchManifestIcons_inv:
  assumes "\<And>manifest entries icon.
             fetch manifestUrl = Response True (ManifestJson manifest) \<Longrightarrow>
             icons manifest = Some entries \<Longrightarrow> icon \<in> set entries \<Longrightarrow>
             Q \<lparr>url = resolveUrl newURL (src icon) baseUrl, width = fst (parseSizes (sizes icon)),
                height = snd (parseSizes (sizes icon)), type = Manifest, priority = 4\<rparr>"
  shows "\<forall>c\<in>set (fetchManifestIcons newURL fetch manifestUrl baseUrl). Q c"
  using assms
  by (auto simp: fetchManifestIcons_def fetchManifestIcons_try_def manifestIcon_def Let_def
      split_beta split: fetch_result.splits json_body.splits option.splits)

lemma manifestLoop_inv:
  assumes "\<forall>c\<in>set acc. Q c"
    and "\<And>m href manifest entries icon.
           m \<in> set ms \<Longrightarrow> extractAttribute m ''href'' = Some href \<Longrightarrow> href \<noteq> [] \<Longrightarrow>
           fetch (resolveUrl newURL href baseUrl) = Response True (ManifestJson manifest) \<Longrightarrow>
           icons manifest = Some entries \<Longrightarrow> icon \<in> set entries \<Longrightarrow>
           Q \<lparr>url = resolveUrl newURL (src icon) baseUrl, width = fst (parseSizes (sizes icon)),
              height = snd (parseSizes (sizes icon)), type = Manifest, priority = 4\<rparr>"
  shows "\<forall>c\<in>set (manifestLoop newURL fetch baseUrl ms acc). Q c"
  using assms
proof (induction ms arbitrary: acc)
  case Nil then show ?case by simp
next
  case (Cons m ms)
  have f: "\<forall>c\<in>set (fetchManifestIcons newURL fetch (resolveUrl newURL href baseUrl) baseUrl). Q c"
    if "extractAttribute m ''href'' = Some href" "href \<noteq> []" for href
    by (rule fetchManifestIcons_inv) (rule Cons.prems(2)[of m href], use that in simp_all)
  show ?case
    unfolding manifestLoop.simps
  proof (rule Cons.IH)
    show "\<forall>c\<in>set (case extractAttribute m ''href'' of
              None \<Rightarrow> acc
            | Some href \<Rightarrow>
                if href = [] then acc
                else (let manifestUrl = resolveUrl newURL href baseUrl;
                          manifestIcons = fetchManifestIcons newURL fetch manifestUrl baseUrl
                      in acc @ manifestIcons)). Q c"
      using Cons.prems(1) f by (auto simp: Let_def split: option.splits)
  next
    fix m' href manifest entries icon
    assume "m' \<in> set ms" "extractAttribute m' ''href'' = Some href" "href \<noteq> []"
      "fetch (resolveUrl newURL href baseUrl) = Response True (ManifestJson manifest)"
      "icons manifest = Some entries" "icon \<in> set entries"
    then show "Q \<lparr>url = resolveUrl newURL (src icon) baseUrl, width = fst (parseSizes (sizes icon)),
              height = snd (parseSizes (sizes icon)), type = Manifest, priority = 4\<rparr>"
      by (intro Cons.prems(2)[of m' href manifest entries icon]) simp_all
  qed
qed

lemma directIcons_inv:
  assumes "\<And>m href. m \<in> set (match_all appleIconRegex html) \<Longrightarrow>
             extractAttribute m ''href'' = Some href \<Longrightarrow> href \<noteq> [] \<Longrightarrow>
             Q \<lparr>url = resolveUrl newURL href baseUrl,
                width = fst (parseSizes (extractAttribute m ''sizes'')),
                height = snd (parseSizes (extractAttribute m ''sizes'')),
                type = AppleTouchIcon, priority = 1\<rparr>"
    and "\<And>m href. m \<in> set (match_all faviconRegex html) \<Longrightarrow>
             extractAttribute m ''href'' = Some href \<Longrightarrow> href \<noteq> [] \<Longrightarrow>
             Q \<lparr>url = resolveUrl newURL href baseUrl,
                width = fst (parseSizes (extractAttribute m ''sizes'')),
                height = snd (parseSizes (extractAttribute m ''sizes'')),
                type = Favicon, priority = 2\<rparr>"
    and "\<And>m content. m \<in> set (match_all ogImageRegex html) \<Longrightarrow>
             extractAttribute m ''content'' = Some content \<Longrightarrow> content \<noteq> [] \<Longrightarrow>
             Q \<lparr>url = resolveUrl newURL content baseUrl, width = Fin 1200, height = Fin 630,
                type = OgImage, priority = 3\<rparr>"
  shows "\<forall>c\<in>set (directIcons newURL html baseUrl). Q c"
proof -
  have 1: "\<forall>c\<in>set (appleLoop newURL baseUrl (match_all appleIconRegex html) []). Q c"
    by (rule appleLoop_inv) (simp, rule assms(1))
  have 2: "\<forall>c\<in>set (faviconLoop newURL baseUrl (match_all faviconRegex html)
                     (appleLoop newURL baseUrl (match_all appleIconRegex html) [])). Q c"
    by (rule faviconLoop_inv[OF 1]) (rule assms(2))
  show ?thesis
    unfolding directIcons_def Let_def by (rule ogLoop_inv[OF 2]) (rule assms(3))
qed

lemma directIcons_types:
  "\<forall>c\<in>set (directIcons newURL html baseUrl). type c \<noteq> Manifest"
  by (rule directIcons_inv) simp_all

lemma well_formedI:
  assumes "size_ok (width c)" and "size_ok (height c)"
    and "priority c = spec_priority (type c)"
    and "type c = OgImage \<Longrightarrow> width c = Fin 1200 \<and> height c = Fin 630"
    and "reference_of newURL fetch html baseUrl c ref"
    and "url c = resolveUrl newURL ref baseUrl"
  shows "well_formed newURL fetch html baseUrl c"
proof -
  have "case newURL ref baseUrl of
          Inr u \<Rightarrow> url c = u \<and> ((\<forall>h b v. newURL h b = Inr v \<longrightarrow> has_scheme v) \<longrightarrow> has_scheme u)
        | Inl e \<Rightarrow> url c = ref"
  proof (cases "newURL ref baseUrl")
    case (Inl e)
    then show ?thesis using assms(6) by (simp add: resolveUrl_def)
  next
    case (Inr u)
    then have "(\<forall>h b v. newURL h b = Inr v \<longrightarrow> has_scheme v) \<longrightarrow> has_scheme u" by blast
    then show ?thesis using Inr assms(6) by (simp add: resolveUrl_def)
  qed
  then show ?thesis
    unfolding well_formed_def using assms(1-5) by blast
qed

lemma og_page_direct:
  "directIcons ex_newURL og_page ex_base =
     [\<lparr>url = ''https://example.com/dir/o.png'', width = Fin 1200, height = Fin 630,
       type = OgImage, priority = 3\<rparr>]"
  by code_simp

lemma og_page_manifest:
  "manifestLoop ex_newURL ex_fetch ex_base (match_all manifestRegex og_page)
     [\<lparr>url = ''https://example.com/dir/o.png'', width = Fin 1200, height = Fin 630,
       type = OgImage, priority = 3\<rparr>] =
     [\<lparr>url = ''https://example.com/dir/o.png'', width = Fin 1200, height = Fin 630,
       type = OgImage, priority = 3\<rparr>,
      \<lparr>url = ''https://example.com/i.png'', width = Fin 512, height = Fin 512,
       type = Manifest, priority = 4\<rparr>]"
  by code_simp

lemma favicon_page_direct:
  "directIcons ex_newURL favicon_page ex_base =
     [\<lparr>url = ''https://example.com/a.png'', width = Fin 32, height = Fin 32,
       type = Favicon, priority = 2\<rparr>]"
  by code_simp

lemma og_page_manifest_link: "match_all manifestRegex og_page = [manifest_link]"
  by code_simp

lemma manifest_link_href: "extractAttribute manifest_link ''href'' = Some ''/m.json''"
  by code_simp

lemma og_page_huge:
  "extractIcons ex_newURL huge_fetch og_page ex_base =
     [\<lparr>url = ''https://example.com/dir/o.png'', width = Fin 1200, height = Fin 630,
       type = OgImage, priority = 3\<rparr>,
      \<lparr>url = ''https://example.com/i.png'', width = PosInf, height = Fin 1,
       type = Manifest, priority = 4\<rparr>]"
proof -
  have r: "resolveUrl ex_newURL ''/i.png'' ex_base = ''https://example.com/i.png''"
    by (simp add: resolveUrl_def ex_newURL_def)
  have "fetchManifestIcons ex_newURL huge_fetch u ex_base =
      [\<lparr>url = ''https://example.com/i.png'', width = PosInf, height = Fin 1,
        type = Manifest, priority = 4\<rparr>]" for u
    by (simp add: fetchManifestIcons_def fetchManifestIcons_try_def huge_fetch_def
        huge_manifest_def manifestIcon_def r parseSizes_huge)
  then show ?thesis
    by (simp add: extractIcons_def og_page_direct og_page_manifest_link manifest_link_href)
qed

text \<open>
  C2. The manifest scan runs exactly when the candidates of the first three scans
  include none of type apple-touch-icon or favicon: then the result is what the
  manifest loop adds to them, otherwise it is those candidates alone. Candidates of
  type og-image do not count.
\<close>

theorem manifest_scan_condition:
  "extractIcons newURL fetch html baseUrl =
     (if \<exists>c\<in>set (directIcons newURL html baseUrl). type c = AppleTouchIcon \<or> type c = Favicon
      then directIcons newURL html baseUrl
      else manifestLoop newURL fetch baseUrl (match_all manifestRegex html)
             (directIcons newURL html baseUrl))"
proof -
  let ?d = "directIcons newURL html baseUrl"
  have "(filter (\<lambda>icon. type icon \<noteq> OgImage) ?d = []) \<longleftrightarrow>
        \<not> (\<exists>c\<in>set ?d. type c = AppleTouchIcon \<or> type c = Favicon)"
  proof -
    have "type c \<noteq> OgImage \<longleftrightarrow> type c = AppleTouchIcon \<or> type c = Favicon" if "c \<in> set ?d" for c
      using directIcons_types[of newURL html baseUrl] that by (cases "type c") auto
    then show ?thesis by (auto simp: filter_empty_conv)
  qed
  then show ?thesis by (simp add: extractIcons_def Let_def)
qed

theorem manifest_scan_condition_witness:
  "extractIcons ex_newURL ex_fetch og_page ex_base =
     [\<lparr>url = ''https://example.com/dir/o.png'', width = Fin 1200, height = Fin 630,
       type = OgImage, priority = 3\<rparr>,
      \<lparr>url = ''https://example.com/i.png'', width = Fin 512, height = Fin 512,
       type = Manifest, priority = 4\<rparr>] \<and>
   extractIcons ex_newURL ex_fetch favicon_page ex_base =
     [\<lparr>url = ''https://example.com/a.png'', width = Fin 32, height = Fin 32,
       type = Favicon, priority = 2\<rparr>] \<and>
   match_all manifestRegex favicon_page \<noteq> []"
proof -
  have "match_all manifestRegex favicon_page \<noteq> []" by code_simp
  then show ?thesis
    using manifest_scan_condition[of ex_newURL ex_fetch og_page ex_base]
      manifest_scan_condition[of ex_newURL ex_fetch favicon_page ex_base]
    by (simp add: og_page_direct og_page_manifest favicon_page_direct)
qed

text \<open>
  C8. Every candidate of an extraction has a width and a height that are each a
  non-negative integer or infinity, the priority of its type (1 apple-touch-icon,
  2 favicon, 3 og-image, 4 manifest) and the size 1200 by 630 when it is an og-image.
  Its url comes from its own reference, the non-empty \<^verbatim>\<open>href\<close> (\<^verbatim>\<open>content\<close> for an
  og-image) of a tag its scan matched, of which it has the sizes, or the \<^verbatim>\<open>src\<close> of an
  entry of a manifest that a matched manifest link led to: the url is the parser's
  serialisation of the reference against the page's URL when the reference parses,
  which is absolute when the parser serialises to absolute URLs only, and the
  reference itself when it does not parse.
\<close>

theorem extractIcons_well_formed:
  "\<forall>c\<in>set (extractIcons newURL fetch html baseUrl). well_formed newURL fetch html baseUrl c"
proof -
  let ?W = "well_formed newURL fetch html baseUrl"
  have d: "\<forall>c\<in>set (directIcons newURL html baseUrl). ?W c"
  proof (rule directIcons_inv)
    fix m href
    assume "m \<in> set (match_all appleIconRegex html)" "extractAttribute m ''href'' = Some href"
      "href \<noteq> []"
    then show "?W \<lparr>url = resolveUrl newURL href baseUrl,
                width = fst (parseSizes (extractAttribute m ''sizes'')),
                height = snd (parseSizes (extractAttribute m ''sizes'')),
                type = AppleTouchIcon, priority = 1\<rparr>"
      by (intro well_formedI[where ref = href])
        (auto simp: parseSizes_size_ok spec_priority_def reference_of_def)
  next
    fix m href
    assume "m \<in> set (match_all faviconRegex html)" "extractAttribute m ''href'' = Some href"
      "href \<noteq> []"
    then show "?W \<lparr>url = resolveUrl newURL href baseUrl,
                width = fst (parseSizes (extractAttribute m ''sizes'')),
                height = snd (parseSizes (extractAttribute m ''sizes'')),
                type = Favicon, priority = 2\<rparr>"
      by (intro well_formedI[where ref = href])
        (auto simp: parseSizes_size_ok spec_priority_def reference_of_def)
  next
    fix m content
    assume "m \<in> set (match_all ogImageRegex html)" "extractAttribute m ''content'' = Some content"
      "content \<noteq> []"
    then show "?W \<lparr>url = resolveUrl newURL content baseUrl, width = Fin 1200, height = Fin 630,
                type = OgImage, priority = 3\<rparr>"
      by (intro well_formedI[where ref = content])
        (auto simp: size_ok_def spec_priority_def reference_of_def)
  qed
  have "\<forall>c\<in>set (manifestLoop newURL fetch baseUrl (match_all manifestRegex html)
                   (directIcons newURL html baseUrl)). ?W c"
  proof (rule manifestLoop_inv[OF d])
    fix m href manifest entries icon
    assume a: "m \<in> set (match_all manifestRegex html)" "extractAttribute m ''href'' = Some href"
      "href \<noteq> []"
      "fetch (resolveUrl newURL href baseUrl) = Response True (ManifestJson manifest)"
      "icons manifest = Some entries" "icon \<in> set entries"
    let ?c = "\<lparr>url = resolveUrl newURL (src icon) baseUrl, width = fst (parseSizes (sizes icon)),
                height = snd (parseSizes (sizes icon)), type = Manifest, priority = 4\<rparr>"
    have "reference_of newURL fetch html baseUrl ?c (src icon)"
      unfolding reference_of_def using a by (simp, intro bexI[of _ m]) auto
    then show "?W ?c"
      by (intro well_formedI[where ref = "src icon"])
        (auto simp: parseSizes_size_ok spec_priority_def)
  qed
  then show ?thesis using d by (simp add: extractIcons_def Let_def)
qed

text \<open>
  The candidates of a page with an Open Graph image and a manifest link: the image at
  1200 by 630 with the serialisation of \<^verbatim>\<open>o.png\<close>, the manifest's icon at 512 by 512
  with that of \<^verbatim>\<open>/i.png\<close>.
\<close>

theorem extractIcons_well_formed_witness:
  "extractIcons ex_newURL ex_fetch og_page ex_base =
     [\<lparr>url = ''https://example.com/dir/o.png'', width = Fin 1200, height = Fin 630,
       type = OgImage, priority = 3\<rparr>,
      \<lparr>url = ''https://example.com/i.png'', width = Fin 512, height = Fin 512,
       type = Manifest, priority = 4\<rparr>] \<and>
   well_formed ex_newURL ex_fetch og_page ex_base
     \<lparr>url = ''https://example.com/dir/o.png'', width = Fin 1200, height = Fin 630,
       type = OgImage, priority = 3\<rparr> \<and>
   well_formed ex_newURL ex_fetch og_page ex_base
     \<lparr>url = ''https://example.com/i.png'', width = Fin 512, height = Fin 512,
       type = Manifest, priority = 4\<rparr>"
proof -
  have e: "extractIcons ex_newURL ex_fetch og_page ex_base =
     [\<lparr>url = ''https://example.com/dir/o.png'', width = Fin 1200, height = Fin 630,
       type = OgImage, priority = 3\<rparr>,
      \<lparr>url = ''https://example.com/i.png'', width = Fin 512, height = Fin 512,
       type = Manifest, priority = 4\<rparr>]"
    by (simp add: extractIcons_def og_page_direct og_page_manifest)
  show ?thesis
    using extractIcons_well_formed[of ex_newURL ex_fetch og_page ex_base] unfolding e by simp
qed

text \<open>
  A reference that does not parse is kept as it is: the candidate's url is then no
  absolute URL. A width of 310 digits is no integer: it is infinity.
\<close>

theorem extractIcons_raw_url_infinite_size:
  "extractIcons ex_newURL ex_fetch bad_href_page ex_base =
     [\<lparr>url = ''//['', width = Fin 32, height = Fin 32, type = Favicon, priority = 2\<rparr>] \<and>
   \<not> has_scheme ''//['' \<and>
   extractIcons ex_newURL huge_fetch og_page ex_base =
     [\<lparr>url = ''https://example.com/dir/o.png'', width = Fin 1200, height = Fin 630,
       type = OgImage, priority = 3\<rparr>,
      \<lparr>url = ''https://example.com/i.png'', width = PosInf, height = Fin 1,
       type = Manifest, priority = 4\<rparr>]"
proof -
  have "extractIcons ex_newURL ex_fetch bad_href_page ex_base =
     [\<lparr>url = ''//['', width = Fin 32, height = Fin 32, type = Favicon, priority = 2\<rparr>]"
    by code_simp
  moreover have "\<not> has_scheme ''//[''" by code_simp
  ultimately show ?thesis using og_page_huge by simp
qed

section \<open>The apple-touch-icon scan\<close>

lemma upper_eq_gt: "upper c = CHR ''>'' \<longleftrightarrow> c = CHR ''>''"
  by (cases c) (auto simp: upper_code)

lemma upper_eq_dq: "upper c = dq \<longleftrightarrow> c = dq"
  by (cases c) (auto simp: upper_code)

lemma upper_eq_sq: "upper c = sq \<longleftrightarrow> c = sq"
  by (cases c) (auto simp: upper_code)

lemma map_upper_free:
  assumes "map upper p = map upper l" "upper c = c" "\<And>d. upper d = c \<Longrightarrow> d = c" "c \<notin> set l"
  shows "c \<notin> set p"
proof
  assume "c \<in> set p"
  then have "upper c \<in> set (map upper p)" by simp
  then have "c \<in> set (map upper l)" using assms(1,2) by simp
  then obtain d where d: "d \<in> set l" "upper d = c" by auto
  from assms(3)[OF d(2)] d(1) assms(4) show False by simp
qed

lemma gt_free:
  assumes "map upper p = map upper l" "CHR ''>'' \<notin> set l"
  shows "CHR ''>'' \<notin> set p"
  using assms(1) _ _ assms(2) by (rule map_upper_free) (simp_all add: upper_eq_gt)

lemma quote_free:
  assumes "map upper p = map upper l" "dq \<notin> set l" "sq \<notin> set l"
  shows "list_all (\<lambda>c. c \<notin> set quotes) p"
proof -
  have "dq \<notin> set p" using assms(1) _ _ assms(2) by (rule map_upper_free) (simp_all add: upper_eq_dq)
  moreover have "sq \<notin> set p" using assms(1) _ _ assms(3) by (rule map_upper_free) (simp_all add: upper_eq_sq)
  ultimately show ?thesis by (auto simp: list_all_iff)
qed

lemma run_unique:
  assumes "x @ c # r = y @ d # r'"
    and "list_all P x" "list_all P y" "\<not> P c" "\<not> P d"
  shows "x = y \<and> c = d \<and> r = r'"
proof -
  have "takeWhile P (x @ c # r) = x"
    using assms(2,4) by (simp add: takeWhile_append2 list_all_iff)
  moreover have "takeWhile P (y @ d # r') = y"
    using assms(3,5) by (simp add: takeWhile_append2 list_all_iff)
  ultimately have "x = y" using assms(1) by simp
  then show ?thesis using assms(1) by simp
qed

lemma list_all2_nineE:
  assumes "list_all2 P [a1, a2, a3, a4, a5, a6, a7, a8, a9] ps"
  obtains p1 p2 p3 p4 p5 p6 p7 p8 p9 where "ps = [p1, p2, p3, p4, p5, p6, p7, p8, p9]"
    "P a1 p1" "P a2 p2" "P a3 p3" "P a4 p4" "P a5 p5" "P a6 p6" "P a7 p7" "P a8 p8" "P a9 p9"
  using assms by (auto simp: list_all2_Cons1)

lemma map_upper_gt: "map upper p = map upper ''>'' \<longleftrightarrow> p = ''>''"
proof
  assume a: "map upper p = map upper ''>''"
  then have "length p = 1" by (metis length_map length_Cons list.size(3) One_nat_def)
  then obtain c where "p = [c]" by (cases p) auto
  with a have "upper c = upper CHR ''>''" by simp
  moreover have "upper CHR ''>'' = CHR ''>''" by (simp add: upper_code)
  ultimately show "p = ''>''" using \<open>p = [c]\<close> by (simp add: upper_eq_gt)
qed simp

lemma apple_pieces_ok:
  assumes "map upper l = map upper ''<link''" "CHR ''>'' \<notin> set a"
    "map upper r = map upper ''rel=''" "q1 \<in> set quotes"
    "map upper k = map upper ''apple-touch-icon''"
    "list_all (\<lambda>c. c \<notin> set quotes) v" "q2 \<in> set quotes" "CHR ''>'' \<notin> set b"
  shows "list_all2 (atom_ok True) (atoms appleIconRegex) [l, a, r, [q1], k, v, [q2], b, ''>'']"
proof -
  have "atom_ok True (Lit ''<link'') l" "atom_ok True (Lit ''rel='') r"
    "atom_ok True (Lit ''apple-touch-icon'') k" "atom_ok True (Lit ''>'') ''>''"
    using assms(1,3,5) by (simp_all only: lit_piece)
  moreover have "atom_ok True (Star (NoneOf ''>'')) a" "atom_ok True (Star (NoneOf ''>'')) b"
    using assms(2,8) by (auto simp: list_all_iff)
  moreover have "atom_ok True (One (OneOf quotes)) [q1]" "atom_ok True (One (OneOf quotes)) [q2]"
    using assms(4,7) by simp_all
  moreover have "atom_ok True (Star (NoneOf quotes)) v"
    using assms(6) by (simp add: list_all_iff)
  ultimately show ?thesis by (simp add: appleIconRegex_def)
qed

lemma apple_pieces_D:
  assumes "list_all2 (atom_ok True) (atoms appleIconRegex) ps"
  obtains l a r q1 k v q2 b where "ps = [l, a, r, [q1], k, v, [q2], b, ''>'']"
    "map upper l = map upper ''<link''" "CHR ''>'' \<notin> set a"
    "map upper r = map upper ''rel=''" "q1 \<in> set quotes"
    "map upper k = map upper ''apple-touch-icon''"
    "list_all (\<lambda>c. c \<notin> set quotes) v" "q2 \<in> set quotes" "CHR ''>'' \<notin> set b"
proof -
  from assms have "list_all2 (atom_ok True)
      [Lit ''<link'', Star (NoneOf ''>''), Lit ''rel='', One (OneOf quotes),
       Lit ''apple-touch-icon'', Star (NoneOf quotes), One (OneOf quotes),
       Star (NoneOf ''>''), Lit ''>''] ps"
    by (simp add: appleIconRegex_def)
  then obtain p1 p2 p3 p4 p5 p6 p7 p8 p9 where ps: "ps = [p1, p2, p3, p4, p5, p6, p7, p8, p9]"
    and a: "atom_ok True (Lit ''<link'') p1" "atom_ok True (Star (NoneOf ''>'')) p2"
      "atom_ok True (Lit ''rel='') p3" "atom_ok True (One (OneOf quotes)) p4"
      "atom_ok True (Lit ''apple-touch-icon'') p5" "atom_ok True (Star (NoneOf quotes)) p6"
      "atom_ok True (One (OneOf quotes)) p7" "atom_ok True (Star (NoneOf ''>'')) p8"
      "atom_ok True (Lit ''>'') p9"
    by (rule list_all2_nineE)
  from a(4) obtain q1 where q1: "p4 = [q1]" "q1 \<in> set quotes" unfolding one_cls_piece by auto
  from a(7) obtain q2 where q2: "p7 = [q2]" "q2 \<in> set quotes" unfolding one_cls_piece by auto
  have "p9 = ''>''" using a(9) by (simp only: lit_piece map_upper_gt)
  moreover have "map upper p1 = map upper ''<link''" "map upper p3 = map upper ''rel=''"
    "map upper p5 = map upper ''apple-touch-icon''"
    using a(1,3,5) by (simp_all only: lit_piece)
  moreover have "CHR ''>'' \<notin> set p2" "CHR ''>'' \<notin> set p8"
    using a(2,8) by (auto simp: list_all_iff)
  moreover have "list_all (\<lambda>c. c \<notin> set quotes) p6" using a(6) by (simp add: list_all_iff)
  ultimately show ?thesis using that[of p1 p2 p3 q1 p5 p6 q2 p8] ps q1 q2 by simp
qed

lemma apple_match_sound:
  assumes "match_here True (atoms appleIconRegex) t = Some ps"
  shows "apple_match (concat ps)"
proof -
  from match_here_sound[OF assms] have "list_all2 (atom_ok True) (atoms appleIconRegex) ps" by simp
  then obtain l a r q1 k v q2 b where ps: "ps = [l, a, r, [q1], k, v, [q2], b, ''>'']"
    and c: "map upper l = map upper ''<link''" "CHR ''>'' \<notin> set a"
        "map upper r = map upper ''rel=''" "q1 \<in> set quotes"
        "map upper k = map upper ''apple-touch-icon''"
        "list_all (\<lambda>c. c \<notin> set quotes) v" "q2 \<in> set quotes" "CHR ''>'' \<notin> set b"
    by (rule apple_pieces_D)
  have "concat ps = l @ a @ r @ [q1] @ k @ v @ [q2] @ b @ ''>''" using ps by simp
  then show ?thesis unfolding apple_match_def using c by blast
qed

lemma match_all_each:
  assumes "\<And>t ps. match_here (ignoreCase r) (atoms r) t = Some ps \<Longrightarrow> Q (concat ps)"
  shows "\<forall>m\<in>set (match_all r s). Q m"
  using assms
proof (induction r s rule: match_all.induct)
  case (1 r s)
  show ?case
  proof (cases "regex_exec r s")
    case None
    then show ?thesis by (subst match_all.simps) simp
  next
    case (Some ip)
    obtain i ps where ip: "ip = (i, ps)" by (cases ip)
    have se: "search (ignoreCase r) (atoms r) 0 s = Some (i, ps)"
      using Some ip by (simp add: regex_exec_def)
    from search_Some[OF se] have "match_here (ignoreCase r) (atoms r) (drop (i - 0) s) = Some ps"
      by blast
    then have m: "Q (concat ps)" by (rule "1.prems")
    define e where "e = i + max 1 (length (concat ps))"
    have ma: "match_all r s = concat ps # (if e \<le> length s then match_all r (drop e s) else [])"
      by (subst match_all.simps) (simp add: Some ip Let_def e_def)
    show ?thesis
    proof (cases "e \<le> length s")
      case True
      have "\<forall>m\<in>set (match_all r (drop e s)). Q m"
        by (rule "1.IH"[OF Some ip[symmetric] refl e_def True "1.prems"])
      then show ?thesis using ma True m by simp
    next
      case False
      then show ?thesis using ma m by simp
    qed
  qed
qed

lemma match_all_sound:
  "\<forall>m\<in>set (match_all appleIconRegex html). apple_match m"
proof (rule match_all_each)
  fix t ps assume "match_here (ignoreCase appleIconRegex) (atoms appleIconRegex) t = Some ps"
  then have "match_here True (atoms appleIconRegex) t = Some ps" by (simp add: appleIconRegex_def)
  then show "apple_match (concat ps)" by (rule apple_match_sound)
qed

text \<open>Every match is a piece of the text.\<close>

lemma sublist_of_drop: "sublist m (drop n s) \<Longrightarrow> sublist m s"
proof -
  assume "sublist m (drop n s)"
  then obtain ps ss where "drop n s = ps @ m @ ss" unfolding sublist_def by blast
  then have "s = (take n s @ ps) @ m @ ss" by (metis append_take_drop_id append_assoc)
  then show ?thesis unfolding sublist_def by blast
qed

lemma match_all_sublist: "\<forall>m\<in>set (match_all r s). sublist m s"
proof (induction r s rule: match_all.induct)
  case (1 r s)
  show ?case
  proof (cases "regex_exec r s")
    case None
    then show ?thesis by (subst match_all.simps) simp
  next
    case (Some ip)
    obtain i ps where ip: "ip = (i, ps)" by (cases ip)
    have se: "search (ignoreCase r) (atoms r) 0 s = Some (i, ps)"
      using Some ip by (simp add: regex_exec_def)
    from search_Some[OF se] have "match_here (ignoreCase r) (atoms r) (drop (i - 0) s) = Some ps"
      by blast
    from match_here_sound[OF this] have "prefix (concat ps) (drop i s)" by simp
    then have "sublist (concat ps) (drop i s)" by (rule prefix_imp_sublist)
    then have m: "sublist (concat ps) s" by (rule sublist_of_drop)
    define e where "e = i + max 1 (length (concat ps))"
    have ma: "match_all r s = concat ps # (if e \<le> length s then match_all r (drop e s) else [])"
      by (subst match_all.simps) (simp add: Some ip Let_def e_def)
    show ?thesis
    proof (cases "e \<le> length s")
      case True
      have "\<forall>m\<in>set (match_all r (drop e s)). sublist m (drop e s)"
        by (rule "1.IH"[OF Some ip[symmetric] refl e_def True])
      then have "\<forall>m\<in>set (match_all r (drop e s)). sublist m s"
        using sublist_of_drop by blast
      then show ?thesis using ma True m by simp
    next
      case False
      then show ?thesis using ma m by simp
    qed
  qed
qed

lemma prefix_split:
  assumes "x @ y = u @ w" "length u \<le> length x"
  obtains t where "x = u @ t" "w = t @ y"
proof -
  have "take (length u) (x @ y) = u" using assms(1) by simp
  then have u: "take (length u) x = u" using assms(2) by simp
  then have x: "x = u @ drop (length u) x" by (metis append_take_drop_id)
  have "drop (length u) (x @ y) = w" using assms(1) by simp
  then have "w = drop (length u) x @ y" using assms(2) by simp
  with x show ?thesis using that by blast
qed

lemma butlast_apple_match:
  assumes "m = l @ a @ r @ [q1] @ k @ v @ [q2] @ b @ ''>''"
  shows "butlast m = l @ a @ r @ [q1] @ k @ v @ [q2] @ b" and "m = butlast m @ ''>''"
proof -
  have "m = (l @ a @ r @ [q1] @ k @ v @ [q2] @ b) @ ''>''" using assms by simp
  then show "butlast m = l @ a @ r @ [q1] @ k @ v @ [q2] @ b" by (simp only: butlast_snoc)
  then show "m = butlast m @ ''>''" using assms by simp
qed

lemma apple_tag_match:
  assumes "apple_tag tag"
  shows "\<exists>ps. match_here True (atoms appleIconRegex) (tag @ post) = Some ps \<and> concat ps = tag"
proof -
  from assms have am: "apple_match tag" and gT: "CHR ''>'' \<notin> set (butlast tag)"
    and cl: "closes_values (butlast tag)"
    unfolding apple_tag_def by blast+
  from am obtain l a r q1 k v q2 b where
    t: "tag = l @ a @ r @ [q1] @ k @ v @ [q2] @ b @ ''>''"
    and c: "map upper l = map upper ''<link''" "CHR ''>'' \<notin> set a"
      "map upper r = map upper ''rel=''" "q1 \<in> set quotes"
      "map upper k = map upper ''apple-touch-icon''"
      "list_all (\<lambda>c. c \<notin> set quotes) v" "q2 \<in> set quotes" "CHR ''>'' \<notin> set b"
    unfolding apple_match_def by blast
  define T where "T = butlast tag"
  have tag: "tag = T @ ''>''" unfolding T_def using t by (rule butlast_apple_match(2))
  have gT: "CHR ''>'' \<notin> set T" unfolding T_def by (rule gT)
  \<comment> \<open>a match exists\<close>
  have "list_all2 (atom_ok True) (atoms appleIconRegex) [l, a, r, [q1], k, v, [q2], b, ''>'']"
    using c by (rule apple_pieces_ok)
  moreover have "prefix (concat [l, a, r, [q1], k, v, [q2], b, ''>'']) (tag @ post)"
    unfolding t by (simp add: prefix_def)
  ultimately have "match_here True (atoms appleIconRegex) (tag @ post) \<noteq> None"
    by (rule match_here_complete)
  then obtain ps where m: "match_here True (atoms appleIconRegex) (tag @ post) = Some ps" by auto
  from match_here_sound[OF m] have s: "list_all2 (atom_ok True) (atoms appleIconRegex) ps"
    "prefix (concat ps) (tag @ post)" by auto
  from s(1) obtain l' a' r' q1' k' v' q2' b' where ps: "ps = [l', a', r', [q1'], k', v', [q2'], b', ''>'']"
    and c': "map upper l' = map upper ''<link''" "CHR ''>'' \<notin> set a'"
      "map upper r' = map upper ''rel=''" "q1' \<in> set quotes"
      "map upper k' = map upper ''apple-touch-icon''"
      "list_all (\<lambda>c. c \<notin> set quotes) v'" "q2' \<in> set quotes" "CHR ''>'' \<notin> set b'"
    by (rule apple_pieces_D)
  define N where "N = (l' @ a') @ r' @ [q1'] @ k'"
  from s(2) obtain rest where "tag @ post = concat ps @ rest" by (auto simp: prefix_def)
  then have e: "T @ CHR ''>'' # post = N @ v' @ q2' # (b' @ CHR ''>'' # rest)"
    unfolding tag ps N_def by simp
  have gl': "CHR ''>'' \<notin> set l'" using c'(1) by (rule gt_free) simp
  have gr': "CHR ''>'' \<notin> set r'" using c'(3) by (rule gt_free) simp
  have gk': "CHR ''>'' \<notin> set k'" using c'(5) by (rule gt_free) simp
  have gq': "q1' \<noteq> CHR ''>''" using c'(4) by auto
  have gN: "CHR ''>'' \<notin> set N" unfolding N_def using gl' gr' gk' gq' c'(2) by auto
  \<comment> \<open>the pieces up to the keyword lie before the closing bracket of the tag\<close>
  have "\<forall>c\<in>set T. c \<noteq> CHR ''>''" using gT by auto
  then have "takeWhile (\<lambda>c. c \<noteq> CHR ''>'') (T @ CHR ''>'' # post) = T"
    by (simp add: takeWhile_append2)
  moreover have "prefix N (T @ CHR ''>'' # post)" using e by (simp add: prefix_def)
  moreover have "list_all (\<lambda>c. c \<noteq> CHR ''>'') N" using gN by (auto simp: list_all_iff)
  ultimately have lN: "length N \<le> length T"
    using prefix_all_takeWhile[of N "T @ CHR ''>'' # post" "\<lambda>c. c \<noteq> CHR ''>''"] by simp
  from prefix_split[OF e lN] obtain t' where
    t': "T = N @ t'" "v' @ q2' # (b' @ CHR ''>'' # rest) = t' @ CHR ''>'' # post" by blast
  \<comment> \<open>the value that the keyword opens is closed inside the tag\<close>
  have "butlast tag = (l' @ a') @ r' @ [q1'] @ k' @ t'" using t'(1) unfolding T_def N_def by simp
  then have qt: "\<exists>c\<in>set t'. c \<in> set quotes"
    using cl c'(3,4,5) unfolding closes_values_def by blast
  from split_list_first_prop[OF qt] obtain t1 qq t2 where
    sp: "t' = t1 @ qq # t2" "qq \<in> set quotes" "\<forall>c\<in>set t1. c \<notin> set quotes" by blast
  have "v' @ q2' # (b' @ CHR ''>'' # rest) = t1 @ qq # (t2 @ CHR ''>'' # post)"
    using t'(2) sp(1) by simp
  then have u1: "v' = t1 \<and> q2' = qq \<and> b' @ CHR ''>'' # rest = t2 @ CHR ''>'' # post"
    by (rule run_unique[where P = "\<lambda>c. c \<notin> set quotes"])
       (use c'(6,7) sp(2,3) in \<open>auto simp: list_all_iff\<close>)
  have "CHR ''>'' \<notin> set t2" using gT t'(1) sp(1) by auto
  with u1 have "b' = t2 \<and> CHR ''>'' = CHR ''>'' \<and> rest = post"
    by (intro run_unique[where P = "\<lambda>c. c \<noteq> CHR ''>''"])
       (use c'(8) in \<open>auto simp: list_all_iff\<close>)
  then have "concat ps = N @ t1 @ qq # t2 @ ''>''"
    using u1 unfolding ps N_def by simp
  also have "\<dots> = tag" unfolding tag t'(1) sp(1) by simp
  finally show ?thesis using m by blast
qed

lemma apple_match_complete:
  assumes "apple_match m" "prefix m t"
  shows "match_here True (atoms appleIconRegex) t \<noteq> None"
proof -
  from assms(1) obtain l a r q1 k v q2 b where
    m: "m = l @ a @ r @ [q1] @ k @ v @ [q2] @ b @ ''>''"
    and c: "map upper l = map upper ''<link''" "CHR ''>'' \<notin> set a"
      "map upper r = map upper ''rel=''" "q1 \<in> set quotes"
      "map upper k = map upper ''apple-touch-icon''"
      "list_all (\<lambda>c. c \<notin> set quotes) v" "q2 \<in> set quotes" "CHR ''>'' \<notin> set b"
    unfolding apple_match_def by blast
  have "list_all2 (atom_ok True) (atoms appleIconRegex) [l, a, r, [q1], k, v, [q2], b, ''>'']"
    using c by (rule apple_pieces_ok)
  moreover have "prefix (concat [l, a, r, [q1], k, v, [q2], b, ''>'']) t"
    using assms(2) unfolding m by simp
  ultimately show ?thesis by (rule match_here_complete)
qed

lemma match_all_apple_tag:
  assumes "apple_tag tag"
    and "\<forall>j<length pre. \<forall>m. apple_match m \<longrightarrow> \<not> prefix m (drop j (pre @ tag @ post))"
  shows "match_all appleIconRegex (pre @ tag @ post) = tag # match_all appleIconRegex post"
proof -
  from apple_tag_match[OF assms(1), of post] obtain ps where
    m: "match_here True (atoms appleIconRegex) (tag @ post) = Some ps" "concat ps = tag" by blast
  have ne: "tag \<noteq> []" using assms(1) unfolding apple_tag_def apple_match_def by auto
  have nb: "\<forall>j<length pre. match_here True (atoms appleIconRegex) (drop j (pre @ tag @ post)) = None"
  proof (intro allI impI)
    fix j assume j: "j < length pre"
    show "match_here True (atoms appleIconRegex) (drop j (pre @ tag @ post)) = None"
    proof (rule ccontr)
      assume "match_here True (atoms appleIconRegex) (drop j (pre @ tag @ post)) \<noteq> None"
      then obtain qs where q: "match_here True (atoms appleIconRegex) (drop j (pre @ tag @ post)) = Some qs"
        by auto
      from apple_match_sound[OF q] match_here_sound[OF q] assms(2) j show False by blast
    qed
  qed
  have "search True (atoms appleIconRegex) 0 (pre @ tag @ post) = Some (length pre, ps)"
    unfolding search_iff using m(1) nb by simp
  then have x: "regex_exec appleIconRegex (pre @ tag @ post) = Some (length pre, ps)"
    by (simp add: regex_exec_def appleIconRegex_def)
  have lt: "Suc 0 \<le> length tag" using ne by (cases tag) auto
  show ?thesis
    by (subst match_all.simps) (use lt in \<open>simp add: x m(2) Let_def max_def\<close>)
qed

lemma no_match_before_code:
  assumes "list_all (\<lambda>j. match_here True (atoms appleIconRegex) (drop j s) = None) [0..<n]"
  shows "\<forall>j<n. \<forall>m. apple_match m \<longrightarrow> \<not> prefix m (drop j s)"
proof (intro allI impI notI)
  fix j m assume "j < n" "apple_match m" "prefix m (drop j s)"
  then have "match_here True (atoms appleIconRegex) (drop j s) \<noteq> None"
    using apple_match_complete by blast
  moreover have "match_here True (atoms appleIconRegex) (drop j s) = None"
    using assms \<open>j < n\<close> by (simp add: list_all_iff)
  ultimately show False by simp
qed

lemma appleLoop_append:
  "appleLoop newURL baseUrl ms acc = acc @ appleLoop newURL baseUrl ms []"
proof (induction ms arbitrary: acc)
  case Nil then show ?case by simp
next
  case (Cons m ms)
  show ?case
    unfolding appleLoop.simps
    by (subst Cons.IH, subst (2) Cons.IH) (simp add: Let_def split_beta split: option.splits)
qed

lemma appleLoop_prefix: "prefix acc (appleLoop newURL baseUrl ms acc)"
  by (subst appleLoop_append) simp

lemma faviconLoop_prefix: "prefix acc (faviconLoop newURL baseUrl ms acc)"
proof (induction ms arbitrary: acc)
  case Nil then show ?case by simp
next
  case (Cons m ms)
  show ?case
    unfolding faviconLoop.simps
    by (rule prefix_order.trans[OF _ Cons.IH]) (simp add: Let_def split_beta split: option.splits)
qed

lemma ogLoop_prefix: "prefix acc (ogLoop newURL baseUrl ms acc)"
proof (induction ms arbitrary: acc)
  case Nil then show ?case by simp
next
  case (Cons m ms)
  show ?case
    unfolding ogLoop.simps
    by (rule prefix_order.trans[OF _ Cons.IH]) (simp add: Let_def split: option.splits)
qed

lemma manifestLoop_prefix: "prefix acc (manifestLoop newURL fetch baseUrl ms acc)"
proof (induction ms arbitrary: acc)
  case Nil then show ?case by simp
next
  case (Cons m ms)
  show ?case
    unfolding manifestLoop.simps
    by (rule prefix_order.trans[OF _ Cons.IH]) (simp add: Let_def split: option.splits)
qed

lemma apple_prefix_extract:
  "prefix (appleLoop newURL baseUrl (match_all appleIconRegex html) [])
     (extractIcons newURL fetch html baseUrl)"
proof -
  let ?a = "appleLoop newURL baseUrl (match_all appleIconRegex html) []"
  have "prefix ?a (directIcons newURL html baseUrl)"
    unfolding directIcons_def Let_def
    by (rule prefix_order.trans[OF faviconLoop_prefix ogLoop_prefix])
  moreover have "prefix (directIcons newURL html baseUrl) (extractIcons newURL fetch html baseUrl)"
    unfolding extractIcons_def Let_def by (simp add: manifestLoop_prefix)
  ultimately show ?thesis by (rule prefix_order.trans)
qed

text \<open>A text that ends with a quote closes its values.\<close>

lemma upper_N: "upper c = CHR ''N'' \<Longrightarrow> c \<notin> set quotes"
  by (cases c) (auto simp: upper_code split: if_splits)

lemma closes_values_last:
  assumes "s \<noteq> []" and "last s \<in> set quotes"
  shows "closes_values s"
  unfolding closes_values_def
proof (intro allI impI)
  fix y r q k t
  assume a: "s = y @ r @ [q] @ k @ t \<and> map upper r = map upper ''rel='' \<and> q \<in> set quotes \<and>
    map upper k = map upper ''apple-touch-icon''"
  then have k: "map upper k = map upper ''apple-touch-icon''" by blast
  then have "length (map upper k) = length (map upper ''apple-touch-icon'')" by (rule arg_cong)
  then have kn: "k \<noteq> []" by auto
  have "last (map upper k) = CHR ''N''" unfolding k by (simp add: upper_code)
  then have "upper (last k) = CHR ''N''" using kn by (simp add: last_map)
  then have lk: "last k \<notin> set quotes" by (rule upper_N)
  show "\<exists>c\<in>set t. c \<in> set quotes"
  proof (cases "t = []")
    case True
    then have "last s = last k" using a kn by simp
    then show ?thesis using lk assms(2) by simp
  next
    case False
    then have "last s = last t" using a by simp
    moreover have "last t \<in> set t" using False by simp
    ultimately show ?thesis using assms(2) by auto
  qed
qed

lemma apple_matchI:
  assumes "m = l @ a @ r @ [q1] @ k @ v @ [q2] @ b @ ''>''"
    "map upper l = map upper ''<link''" "CHR ''>'' \<notin> set a"
    "map upper r = map upper ''rel=''" "q1 \<in> set quotes"
    "map upper k = map upper ''apple-touch-icon''"
    "list_all (\<lambda>c. c \<notin> set quotes) v" "q2 \<in> set quotes" "CHR ''>'' \<notin> set b"
  shows "apple_match m"
  unfolding apple_match_def using assms by blast

lemma apple_link_match: "apple_match apple_link"
proof (rule apple_matchI[of _ "''<LINK''" "'' ''" "''REL=''" sq "''apple-touch-icon''" "''-x''" dq
      "'' href='' @ [dq] @ ''/apple-touch-icon.png'' @ [dq]"])
  show "apple_link = ''<LINK'' @ '' '' @ ''REL='' @ [sq] @ ''apple-touch-icon'' @ ''-x'' @ [dq] @
      ('' href='' @ [dq] @ ''/apple-touch-icon.png'' @ [dq]) @ ''>''"
    by (simp add: apple_link_def)
  show "map upper ''<LINK'' = map upper ''<link''" by code_simp
  show "map upper ''REL='' = map upper ''rel=''" by code_simp
  show "map upper ''apple-touch-icon'' = map upper ''apple-touch-icon''" by (rule refl)
qed simp_all

lemma apple_link_tag: "apple_tag apple_link"
proof -
  have b: "butlast apple_link =
      ''<LINK REL='' @ [sq] @ ''apple-touch-icon-x'' @ [dq] @ '' href='' @ [dq] @
      ''/apple-touch-icon.png'' @ [dq]"
    by (simp add: apple_link_def)
  have "CHR ''>'' \<notin> set (butlast apple_link)" unfolding b by simp
  moreover have "closes_values (butlast apple_link)"
    unfolding b by (rule closes_values_last) simp_all
  ultimately show ?thesis unfolding apple_tag_def using apple_link_match by blast
qed

lemma plain_link_match: "apple_match plain_link"
proof (rule apple_matchI[of _ "''<link''" "'' ''" "''rel=''" dq "''apple-touch-icon''" "[]" dq
      "'' sizes='' @ [dq] @ ''180x180'' @ [dq] @ '' href='' @ [dq] @ ''/apple-touch-icon.png'' @ [dq]"])
  show "plain_link = ''<link'' @ '' '' @ ''rel='' @ [dq] @ ''apple-touch-icon'' @ [] @ [dq] @
      ('' sizes='' @ [dq] @ ''180x180'' @ [dq] @ '' href='' @ [dq] @ ''/apple-touch-icon.png'' @ [dq]) @
      ''>''"
    by (simp add: plain_link_def)
  show "map upper ''<link'' = map upper ''<link''" by (rule refl)
  show "map upper ''rel='' = map upper ''rel=''" by (rule refl)
  show "map upper ''apple-touch-icon'' = map upper ''apple-touch-icon''" by (rule refl)
qed simp_all

lemma plain_link_tag: "apple_tag plain_link"
proof -
  have b: "butlast plain_link =
      ''<link rel='' @ [dq] @ ''apple-touch-icon'' @ [dq] @ '' sizes='' @ [dq] @ ''180x180'' @ [dq] @
      '' href='' @ [dq] @ ''/apple-touch-icon.png'' @ [dq]"
    by (simp add: plain_link_def)
  have "CHR ''>'' \<notin> set (butlast plain_link)" unfolding b by simp
  moreover have "closes_values (butlast plain_link)"
    unfolding b by (rule closes_values_last) simp_all
  ultimately show ?thesis unfolding apple_tag_def using plain_link_match by blast
qed

text \<open>
  C4. Every text the apple-touch-icon scan matches is a piece of the page of the form
  \<^verbatim>\<open><link\<close>, text free of \<^verbatim>\<open>>\<close>, \<^verbatim>\<open>rel=\<close>, a quote, \<^verbatim>\<open>apple-touch-icon\<close>, text free of
  quotes, a quote, text free of \<^verbatim>\<open>>\<close>, and \<^verbatim>\<open>>\<close>: the keyword follows the quote, so the
  value starts with it and may go on as a longer token. A link tag of that form whose
  only \<^verbatim>\<open>>\<close> is its last character, in which every value so opened is closed, and
  before which no match starts, is matched as a whole; the scan goes on after it, and
  the loop pushes a candidate of priority 1 for it when its \<^verbatim>\<open>href\<close> has a non-empty
  value. The candidates of the scan come first in the result of the extraction.
\<close>

theorem apple_scan:
  "(\<forall>m\<in>set (match_all appleIconRegex html). apple_match m \<and> sublist m html) \<and>
   (apple_tag tag \<and>
    (\<forall>j<length pre. \<forall>m. apple_match m \<longrightarrow> \<not> prefix m (drop j (pre @ tag @ post))) \<longrightarrow>
      match_all appleIconRegex (pre @ tag @ post) = tag # match_all appleIconRegex post \<and>
      appleLoop newURL baseUrl (match_all appleIconRegex (pre @ tag @ post)) [] =
        appleCandidate newURL baseUrl tag @
        appleLoop newURL baseUrl (match_all appleIconRegex post) []) \<and>
   prefix (appleLoop newURL baseUrl (match_all appleIconRegex html) [])
     (extractIcons newURL fetch html baseUrl)"
proof (intro conjI impI)
  show "\<forall>m\<in>set (match_all appleIconRegex html). apple_match m \<and> sublist m html"
    using match_all_sound match_all_sublist by blast
next
  assume a: "apple_tag tag \<and>
    (\<forall>j<length pre. \<forall>m. apple_match m \<longrightarrow> \<not> prefix m (drop j (pre @ tag @ post)))"
  then show e: "match_all appleIconRegex (pre @ tag @ post) = tag # match_all appleIconRegex post"
    using match_all_apple_tag by blast
  show "appleLoop newURL baseUrl (match_all appleIconRegex (pre @ tag @ post)) [] =
        appleCandidate newURL baseUrl tag @
        appleLoop newURL baseUrl (match_all appleIconRegex post) []"
    unfolding e appleLoop.simps
    by (subst appleLoop_append)
       (simp add: appleCandidate_def Let_def split_beta split: option.splits)
next
  show "prefix (appleLoop newURL baseUrl (match_all appleIconRegex html) [])
     (extractIcons newURL fetch html baseUrl)" by (rule apple_prefix_extract)
qed

text \<open>
  A page of three link tags. The first is of another kind. The second is in upper
  case, its value opened by a single and closed by a double quote and longer than the
  keyword, its \<^verbatim>\<open>href\<close> holding the keyword again. The third is the everyday tag with
  sizes. The scan matches the second and the third, each as a whole, and the loop
  pushes a candidate for each.
\<close>

theorem apple_scan_witness:
  "apple_tag apple_link \<and> apple_tag plain_link \<and>
   match_all appleIconRegex (other_link @ apple_link @ plain_link) = [apple_link, plain_link] \<and>
   appleLoop ex_newURL ex_base (match_all appleIconRegex (other_link @ apple_link @ plain_link)) [] =
     [\<lparr>url = ''https://example.com/apple-touch-icon.png'', width = Fin 32, height = Fin 32,
       type = AppleTouchIcon, priority = 1\<rparr>,
      \<lparr>url = ''https://example.com/apple-touch-icon.png'', width = Fin 180, height = Fin 180,
       type = AppleTouchIcon, priority = 1\<rparr>]"
proof -
  let ?page = "other_link @ apple_link @ plain_link"
  have "list_all (\<lambda>j. match_here True (atoms appleIconRegex) (drop j ?page) = None) [0..<14]"
    by code_simp
  then have "\<forall>j<14. \<forall>m. apple_match m \<longrightarrow> \<not> prefix m (drop j ?page)"
    by (rule no_match_before_code)
  moreover have "length other_link = 14" by (simp add: other_link_def)
  ultimately have nb: "\<forall>j<length other_link. \<forall>m. apple_match m \<longrightarrow> \<not> prefix m (drop j ?page)"
    by simp
  have nb2: "\<forall>j<length ([]::string). \<forall>m. apple_match m \<longrightarrow> \<not> prefix m (drop j ([] @ plain_link @ []))"
    by simp
  have z: "match_all appleIconRegex [] = []" by code_simp
  have c1: "appleCandidate ex_newURL ex_base apple_link =
     [\<lparr>url = ''https://example.com/apple-touch-icon.png'', width = Fin 32, height = Fin 32,
       type = AppleTouchIcon, priority = 1\<rparr>]"
    by code_simp
  have c2: "appleCandidate ex_newURL ex_base plain_link =
     [\<lparr>url = ''https://example.com/apple-touch-icon.png'', width = Fin 180, height = Fin 180,
       type = AppleTouchIcon, priority = 1\<rparr>]"
    by code_simp
  note s1 = apple_scan[of ?page apple_link other_link plain_link ex_newURL ex_base]
  note s2 = apple_scan[of plain_link plain_link "[]" "[]" ex_newURL ex_base]
  from s1 apple_link_tag nb have
    st1: "match_all appleIconRegex ?page = apple_link # match_all appleIconRegex plain_link"
    and lp1: "appleLoop ex_newURL ex_base (match_all appleIconRegex ?page) [] =
        appleCandidate ex_newURL ex_base apple_link @
        appleLoop ex_newURL ex_base (match_all appleIconRegex plain_link) []"
    by blast+
  from s2 plain_link_tag nb2 have
    "match_all appleIconRegex ([] @ plain_link @ []) = plain_link # match_all appleIconRegex []"
    and "appleLoop ex_newURL ex_base (match_all appleIconRegex ([] @ plain_link @ [])) [] =
        appleCandidate ex_newURL ex_base plain_link @
        appleLoop ex_newURL ex_base (match_all appleIconRegex []) []"
    by blast+
  then have st2: "match_all appleIconRegex plain_link = [plain_link]"
    and lp2: "appleLoop ex_newURL ex_base (match_all appleIconRegex plain_link) [] =
        appleCandidate ex_newURL ex_base plain_link"
    using z by simp_all
  have m: "match_all appleIconRegex ?page = [apple_link, plain_link]" unfolding st1 st2 ..
  have "appleLoop ex_newURL ex_base (match_all appleIconRegex ?page) [] =
     [\<lparr>url = ''https://example.com/apple-touch-icon.png'', width = Fin 32, height = Fin 32,
       type = AppleTouchIcon, priority = 1\<rparr>,
      \<lparr>url = ''https://example.com/apple-touch-icon.png'', width = Fin 180, height = Fin 180,
       type = AppleTouchIcon, priority = 1\<rparr>]"
    unfolding lp1 lp2 c1 c2 by simp
  then show ?thesis using apple_link_tag plain_link_tag m by blast
qed

text \<open>
  A \<^verbatim>\<open>rel\<close> value that holds the keyword after another token is not matched, and the tag
  gives no candidate. A tag with a \<^verbatim>\<open>>\<close> in a value before its \<^verbatim>\<open>href\<close> is matched up to
  that \<^verbatim>\<open>>\<close> only: the match has no \<^verbatim>\<open>href\<close>, and the tag gives no candidate.
\<close>

theorem apple_scan_not_substring:
  "extractAttribute mask_page ''rel'' = Some ''mask-icon apple-touch-icon'' \<and>
   extractAttribute mask_page ''href'' = Some ''/a.png'' \<and>
   match_all appleIconRegex mask_page = [] \<and>
   extractIcons ex_newURL ex_fetch mask_page ex_base = [] \<and>
   extractAttribute gt_page ''rel'' = Some ''apple-touch-icon'' \<and>
   extractAttribute gt_page ''href'' = Some ''/a.png'' \<and>
   match_all appleIconRegex gt_page =
     [''<link rel='' @ [dq] @ ''apple-touch-icon'' @ [dq] @ '' title='' @ [dq] @ ''>''] \<and>
   extractIcons ex_newURL ex_fetch gt_page ex_base = []"
  by code_simp

text \<open>
  The pattern does not look at what stands before \<^verbatim>\<open>rel=\<close>: a tag with no \<^verbatim>\<open>rel\<close>
  attribute whose \<^verbatim>\<open>data-rel\<close> value is the keyword is matched.
\<close>

lemma apple_scan_data_rel:
  "match_all appleIconRegex data_rel_page = [data_rel_page] \<and>
   appleLoop ex_newURL ex_base (match_all appleIconRegex data_rel_page) [] =
     [\<lparr>url = ''https://example.com/a.png'', width = Fin 32, height = Fin 32,
       type = AppleTouchIcon, priority = 1\<rparr>]"
  by code_simp

end
